theory Spec2Isabelle
  imports Main "HOL-Library.Word"
begin

section \<open>Hereditas build pipeline (lib/Builder.js)\<close>

text \<open>
  A shallow embedding of the \<^verbatim>\<open>Builder\<close> class: the path filter, the content scanner,
  key derivation, the authenticated stream cipher, the content encryption loop, the index
  builder and the \<^verbatim>\<open>build\<close> method that sequences them.
\<close>

type_synonym byte = "8 word"
type_synonym bytes = "byte list"

subsection \<open>Path filter\<close>

text \<open>
  \<^verbatim>\<open>path.basename\<close> of Node on POSIX: trailing separators are skipped, then the part
  after the last remaining separator is returned (the empty string when the path holds
  nothing but separators).
\<close>

definition basename :: "string \<Rightarrow> string" where
  "basename p =
     (let q = dropWhile (\<lambda>c. c = CHR ''/'') (rev p)
      in rev (takeWhile (\<lambda>c. c \<noteq> CHR ''/'') q))"

text \<open>\<^verbatim>\<open>String.prototype.endsWith\<close> and \<^verbatim>\<open>String.prototype.startsWith\<close>.\<close>

definition endsWith :: "string \<Rightarrow> string \<Rightarrow> bool" where
  "endsWith s suf = (length suf \<le> length s \<and> drop (length s - length suf) s = suf)"

definition startsWith :: "string \<Rightarrow> string \<Rightarrow> bool" where
  "startsWith s pre = (take (length pre) s = pre)"

text \<open>
  \<^verbatim>\<open>includePath(str)\<close>: the deny-list, in the order of the source (Linux, macOS, Windows).
\<close>

definition includePath :: "string \<Rightarrow> bool" where
  "includePath str =
     (let base = basename str
      in if endsWith base ''~'' \<or>
            base = ''.directory'' \<or>
            base = ''.DS_Store'' \<or>
            base = ''.AppleDouble'' \<or>
            base = ''.LSOverride'' \<or>
            startsWith base ''._'' \<or>
            base = ''Thumbs.db'' \<or>
            base = ''Thumbs.db:encryptable'' \<or>
            base = ''desktop.ini'' \<or>
            base = ''Desktop.ini''
         then False
         else True)"

text \<open>
  The deny-list as the specification words it: exact basenames, a trailing tilde, a
  leading \<^verbatim>\<open>._\<close>.
\<close>

definition spec_denied_names :: "string list" where
  "spec_denied_names =
     [''.DS_Store'', ''Thumbs.db'', ''Thumbs.db:encryptable'', ''desktop.ini'',
      ''Desktop.ini'', ''.directory'', ''.AppleDouble'', ''.LSOverride'']"

definition spec_excluded :: "string \<Rightarrow> bool" where
  "spec_excluded base =
     (base \<in> set spec_denied_names \<or>
      (base \<noteq> [] \<and> last base = CHR ''~'') \<or>
      (case base of a # b # _ \<Rightarrow> a = CHR ''.'' \<and> b = CHR ''_'' | _ \<Rightarrow> False))"

subsection \<open>Values, errors and promises\<close>

text \<open>
  Every \<^verbatim>\<open>throw\<close> and every rejected promise of the source is a value of \<open>error\<close>.
  \<open>Invalid_kdf\<close> is the \<^verbatim>\<open>Error('Invalid key derivation function requested')\<close> of
  \<^verbatim>\<open>_deriveKey\<close>; \<open>Io_error\<close> is an error raised by the file system, a stream or an
  external library, with its message. \<open>Never_settles\<close> stands for an \<^verbatim>\<open>await\<close> on a
  promise that is never settled: the asynchronous function is suspended for ever, so no
  later statement of it runs.
\<close>

datatype error = Invalid_kdf | Io_error string | Never_settles

datatype 'a promise = Pending | Resolved 'a | Rejected error

fun await :: "'a promise \<Rightarrow> error + 'a" where
  "await Pending = Inl Never_settles"
| "await (Resolved v) = Inr v"
| "await (Rejected e) = Inl e"

text \<open>A promise is settled once: \<^verbatim>\<open>resolve\<close> and \<^verbatim>\<open>reject\<close> on a settled promise do nothing.\<close>

fun settle :: "'a promise \<Rightarrow> 'a promise \<Rightarrow> 'a promise" where
  "settle Pending q = q"
| "settle p q = p"

text \<open>The two kinds of JavaScript value a tag is held as: a \<^verbatim>\<open>Buffer\<close> or a string.\<close>

datatype js_value = Buffer bytes | String string

subsection \<open>Buffer encodings\<close>

text \<open>\<^verbatim>\<open>buf.toString('hex')\<close>: two lower-case digits for each byte.\<close>

definition hex_digit :: "nat \<Rightarrow> char" where
  "hex_digit n = ''0123456789abcdef'' ! (n mod 16)"

definition hex_byte :: "byte \<Rightarrow> string" where
  "hex_byte b = [hex_digit (unat b div 16), hex_digit (unat b mod 16)]"

definition toHex :: "bytes \<Rightarrow> string" where
  "toHex bs = concat (map hex_byte bs)"

text \<open>\<^verbatim>\<open>buf.toString('base64')\<close>: the standard alphabet, padded with \<^verbatim>\<open>=\<close>.\<close>

definition b64_digit :: "nat \<Rightarrow> char" where
  "b64_digit n =
     ''ABCDEFGHIJKLMNOPQRSTUVWXYZabcdefghijklmnopqrstuvwxyz0123456789+/'' ! (n mod 64)"

fun toBase64 :: "bytes \<Rightarrow> string" where
  "toBase64 [] = []"
| "toBase64 [a] =
     [b64_digit (unat a div 4), b64_digit ((unat a mod 4) * 16), CHR ''='', CHR ''='']"
| "toBase64 [a, b] =
     [b64_digit (unat a div 4), b64_digit ((unat a mod 4) * 16 + unat b div 16),
      b64_digit ((unat b mod 16) * 4), CHR ''='']"
| "toBase64 (a # b # c # rest) =
     [b64_digit (unat a div 4), b64_digit ((unat a mod 4) * 16 + unat b div 16),
      b64_digit ((unat b mod 16) * 4 + unat c div 64), b64_digit (unat c mod 64)]
     @ toBase64 rest"

subsection \<open>Data model\<close>

datatype display_mode = Text | Image | Attach

text \<open>
  \<^verbatim>\<open>HereditasContentFile\<close>. The scanner sets \<^verbatim>\<open>path\<close> and \<^verbatim>\<open>size\<close> only; a property
  that is absent (\<^verbatim>\<open>undefined\<close>) is \<open>None\<close>.
\<close>

record content_file =
  path :: string
  size_bytes :: nat
  dist :: "string option"
  tag :: "string option"
  processed :: "string option"
  display :: "display_mode option"

text \<open>The values \<^verbatim>\<open>build\<close> reads from the \<^verbatim>\<open>Config\<close> object.\<close>

record config =
  distDir :: string
  contentDir :: string
  kdf :: string
  pbkdf2_iterations :: nat
  argon2_memory :: nat
  appToken :: string
  auth0_domain :: string
  auth0_hereditasClientId :: string

text \<open>
  The content directory as \<^verbatim>\<open>fs.readdir\<close> and \<^verbatim>\<open>fs.stat\<close> show it: a directory lists
  its entries in the order of the listing; \<open>File\<close> carries the size \<^verbatim>\<open>stat\<close> reports;
  \<open>No_stat\<close> is an entry on which \<^verbatim>\<open>stat\<close> fails and \<open>No_readdir\<close> a directory
  that \<^verbatim>\<open>readdir\<close> cannot read, each with the error raised.
\<close>

datatype node =
    File nat
  | Dir "(string \<times> node) list"
  | No_stat error
  | No_readdir error

text \<open>
  The state a build works on: the three output fields of the \<^verbatim>\<open>Builder\<close> object
  (\<^verbatim>\<open>null\<close> is \<open>None\<close>), the number of random bytes drawn so far, and the output
  directory, which maps a file name to the bytes handed to the write stream opened on it.
\<close>

record state =
  keySalt :: "bytes option"
  indexTag :: "js_value option"
  hasErrors :: bool
  rng_pos :: nat
  dist_dir :: "string \<rightharpoonup> bytes"

text \<open>The constructor of \<^verbatim>\<open>Builder\<close>, on a given output directory.\<close>

definition new_builder :: "(string \<rightharpoonup> bytes) \<Rightarrow> state" where
  "new_builder d =
     \<lparr>keySalt = None, indexTag = None, hasErrors = False, rng_pos = 0, dist_dir = d\<rparr>"

text \<open>
  \<^verbatim>\<open>crypto.randomBytes(n)\<close>: the random source is a tape of bytes, given with the
  environment; a draw reads the next \<open>n\<close> bytes of it.
\<close>

definition randomBytes :: "(nat \<Rightarrow> byte) \<Rightarrow> nat \<Rightarrow> nat \<Rightarrow> bytes \<times> nat" where
  "randomBytes tape n pos = (map tape [pos ..< pos + n], pos + n)"

subsection \<open>Streams and the environment\<close>

text \<open>
  What a readable stream emits: \<^verbatim>\<open>'data'\<close> with a chunk, \<^verbatim>\<open>'end'\<close>, or \<^verbatim>\<open>'error'\<close>.
\<close>

datatype in_event = Chunk bytes | End | Failure error

text \<open>
  What the handlers of one \<^verbatim>\<open>_encryptStream\<close> call see, in the order of arrival: the
  events of the input stream, and the \<^verbatim>\<open>'error'\<close> event of the output stream.
\<close>

datatype event = In in_event | Out_error error

text \<open>
  A write stream fails at most once. \<open>Some (n, e)\<close> says that its \<^verbatim>\<open>'error'\<close> event,
  with error \<open>e\<close>, arrives after \<open>n\<close> events of the input stream; writes are flushed
  asynchronously, so it may also arrive after the input has ended.
\<close>

definition schedule :: "in_event list \<Rightarrow> (nat \<times> error) option \<Rightarrow> event list" where
  "schedule ins fault =
     (case fault of
        None \<Rightarrow> map In ins
      | Some (n, e) \<Rightarrow> map In (take n ins) @ [Out_error e] @ map In (drop n ins))"

datatype ArgonType = Argon2d | Argon2i | Argon2id

text \<open>The options object handed to \<^verbatim>\<open>argon2.hash\<close>.\<close>

record argon2_params =
  a_pass :: string
  a_salt :: bytes
  a_type :: ArgonType
  a_time :: nat
  a_mem :: nat
  a_hashLen :: nat
  a_parallelism :: nat

text \<open>The parameters \<^verbatim>\<open>build\<close> hands to the webpack configuration.\<close>

record app_params =
  ap_distDir :: string
  ap_authIssuer :: string
  ap_authClientId :: string
  ap_idTokenNamespace :: string
  ap_indexTag :: "js_value option"
  ap_keySalt :: "bytes option"
  ap_kdf :: string
  ap_pbkdf2Iterations :: nat
  ap_argon2Memory :: nat

record webpack_stats =
  stats_hasErrors :: bool
  stats_hasWarnings :: bool

text \<open>
  The environment of a build: everything \<^verbatim>\<open>Builder\<close> calls that is not its own code.
  \<^item> \<open>tape\<close>: the bytes \<^verbatim>\<open>crypto.randomBytes\<close> returns; \<open>content_root\<close>: the content
    directory.
  \<^item> \<open>pbkdf2\<close> is \<^verbatim>\<open>crypto.pbkdf2(password, salt, iterations, keylen, digest)\<close> and
    \<open>argon2_hash\<close> is \<^verbatim>\<open>argon2.hash(options)\<close> of argon2-browser, giving
    \<^verbatim>\<open>res.hash\<close>; both may reject.
  \<^item> \<open>kw_encrypt\<close> is \<^verbatim>\<open>kw.encrypt(masterKey, fileKey)\<close> of \<^verbatim>\<open>lib/aes-kw\<close>.
  \<^item> \<open>createCipheriv\<close>, \<open>cipher_update\<close>, \<open>cipher_final\<close> and \<open>getAuthTag\<close> are the
    \<^verbatim>\<open>Cipher\<close> object of Node's crypto module, over a state of type \<open>'s\<close>:
    a chunk written to the cipher gives the bytes it emits, its end gives the last ones.
  \<^item> \<open>json_stringify\<close> is \<^verbatim>\<open>JSON.stringify\<close> followed by the UTF-8 encoding.
  \<^item> \<open>content_process\<close> is \<^verbatim>\<open>new Content(el, config)\<close>, \<^verbatim>\<open>process()\<close> and then its
    \<^verbatim>\<open>el\<close> and \<^verbatim>\<open>inStream\<close> (\<^verbatim>\<open>lib/Content\<close>): the updated record and the events its
    stream will emit.
  \<^item> \<open>out_fault\<close>: the failure, if any, of the write stream opened on a file name.
  \<^item> \<open>clean_fault\<close>: the failure, if any, of the cleaning of the output directory:
    the error, and the file names that were removed before it.
  \<^item> \<open>webpack\<close>: the bundling of the application, giving the statistics.
\<close>

record 's env =
  tape :: "nat \<Rightarrow> byte"
  content_root :: node
  pbkdf2 :: "string \<Rightarrow> bytes \<Rightarrow> nat \<Rightarrow> nat \<Rightarrow> string \<Rightarrow> error + bytes"
  argon2_hash :: "argon2_params \<Rightarrow> error + bytes"
  kw_encrypt :: "bytes \<Rightarrow> bytes \<Rightarrow> bytes"
  createCipheriv :: "string \<Rightarrow> bytes \<Rightarrow> bytes \<Rightarrow> 's"
  cipher_update :: "'s \<Rightarrow> bytes \<Rightarrow> 's \<times> bytes"
  cipher_final :: "'s \<Rightarrow> 's \<times> bytes"
  getAuthTag :: "'s \<Rightarrow> bytes"
  json_stringify :: "content_file list \<Rightarrow> bytes"
  content_process :: "content_file \<Rightarrow> error + content_file \<times> in_event list"
  out_fault :: "string \<Rightarrow> (nat \<times> error) option"
  clean_fault :: "(error \<times> (string \<Rightarrow> bool)) option"
  webpack :: "app_params \<Rightarrow> error + webpack_stats"

text \<open>
  Modelled from the spec: \<^verbatim>\<open>lib/aes-kw\<close> is not among the sources. The specification
  says of the key wrap that it is deterministic, takes no nonce and "produces an output 8
  bytes longer than the input key".
\<close>

definition kw_spec :: "(bytes \<Rightarrow> bytes \<Rightarrow> bytes) \<Rightarrow> bool" where
  "kw_spec kw = (\<forall>masterKey fileKey. length (kw masterKey fileKey) = length fileKey + 8)"

text \<open>
  Modelled from the spec: the cipher is Node's AES-256-GCM. The specification gives the
  ciphertext as "variable length, equal to plaintext length": each chunk is answered by as
  many bytes, and the end of the input adds none.
\<close>

definition gcm_spec :: "'s env \<Rightarrow> bool" where
  "gcm_spec E =
     ((\<forall>s c. length (snd (cipher_update E s c)) = length c) \<and>
      (\<forall>s. snd (cipher_final E s) = []))"


subsection \<open>Content scanner\<close>

text \<open>
  \<^verbatim>\<open>_scanContent\<close>. \<open>scanFolder\<close> is the inner function on one directory, \<open>scanList\<close>
  its loop over the listing; the list \<^verbatim>\<open>result\<close> both push to is passed along.
  \<^verbatim>\<open>stat\<close> either fails or gives an object, so the test \<^verbatim>\<open>if (!stat)\<close> never
  holds. The separator \<^verbatim>\<open>path.sep\<close> is the one of POSIX.
\<close>

fun scanFolder :: "string \<Rightarrow> node \<Rightarrow> content_file list \<Rightarrow> error + content_file list"
  and scanList ::
    "string \<Rightarrow> (string \<times> node) list \<Rightarrow> content_file list \<Rightarrow> error + content_file list"
where
  "scanFolder folder (Dir list) result = scanList folder list result"
| "scanFolder folder (File n) result = Inl (Io_error ''ENOTDIR'')"
| "scanFolder folder (No_stat e) result = Inl e"
| "scanFolder folder (No_readdir e) result = Inl e"
| "scanList folder [] result = Inr result"
| "scanList folder ((name, n) # rest) result =
     (let el = folder @ name in
      if \<not> includePath el then scanList folder rest result
      else
        (case n of
           No_stat e \<Rightarrow> Inl e
         | File sz \<Rightarrow>
             scanList folder rest
               (result @ [\<lparr>path = el, size_bytes = sz, dist = None, tag = None,
                           processed = None, display = None\<rparr>])
         | _ \<Rightarrow>
             (case scanFolder (el @ ''/'') n result of
                Inl e \<Rightarrow> Inl e
              | Inr result' \<Rightarrow> scanList folder rest result')))"

definition scanContent :: "'s env \<Rightarrow> error + content_file list" where
  "scanContent E = scanFolder [] (content_root E) []"

text \<open>
  The traversal as the specification words it: the regular files reachable depth first, in
  listing order, entries the path filter rejects left out.
\<close>

fun spec_walk :: "string \<Rightarrow> node \<Rightarrow> (string \<times> nat) list" where
  "spec_walk prefix (Dir list) =
     concat (map (\<lambda>(name, n).
       if includePath (prefix @ name)
       then (case n of File sz \<Rightarrow> [(prefix @ name, sz)]
             | _ \<Rightarrow> spec_walk (prefix @ name @ ''/'') n)
       else []) list)"
| "spec_walk prefix _ = []"

subsection \<open>Key derivation\<close>

text \<open>\<^verbatim>\<open>_deriveKey(passphrase, salt)\<close>.\<close>

definition deriveKey :: "'s env \<Rightarrow> config \<Rightarrow> string \<Rightarrow> bytes \<Rightarrow> error + bytes" where
  "deriveKey E cfg passphrase salt =
     (if kdf cfg = ''pbkdf2'' then
        pbkdf2 E passphrase salt (pbkdf2_iterations cfg) 32 ''sha512''
      else if kdf cfg = ''argon2'' then
        argon2_hash E
          \<lparr>a_pass = passphrase, a_salt = salt, a_type = Argon2id, a_time = 1,
           a_mem = argon2_memory cfg, a_hashLen = 32, a_parallelism = 1\<rparr>
      else Inl Invalid_kdf)"

subsection \<open>Authenticated stream cipher\<close>

text \<open>
  One \<^verbatim>\<open>_encryptStream\<close> call in progress: the bytes handed to \<^verbatim>\<open>outStream.write\<close> so
  far, the cipher, whether the input stream still flows into the cipher, whether the cipher
  is still piped to the output stream, and the promise the call returned.
\<close>

record 's pipeline =
  written :: bytes
  cipher_state :: 's
  in_flowing :: bool
  out_piped :: bool
  settled :: "bytes promise"

text \<open>
  The handlers \<^verbatim>\<open>_encryptStream\<close> installs, one event at a time.
  \<^item> A chunk of the input is written to the cipher, and what the cipher emits is written
    to the output stream (\<^verbatim>\<open>inStream.pipe(cipher).pipe(outStream)\<close>).
  \<^item> The end of the input ends the cipher, whose last bytes go to the output stream;
    the cipher then emits \<^verbatim>\<open>'end'\<close> and the handler resolves the promise with
    \<^verbatim>\<open>cipher.getAuthTag()\<close>.
  \<^item> An error of the input stream rejects the promise (\<^verbatim>\<open>inStream.on('error', reject)\<close>);
    the stream emits nothing after it.
  \<^item> An error of the output stream rejects the promise
    (\<^verbatim>\<open>outStream.on('error', reject)\<close>), and \<^verbatim>\<open>pipe\<close> detaches the cipher from it.
\<close>

fun step :: "'s env \<Rightarrow> 's pipeline \<Rightarrow> event \<Rightarrow> 's pipeline" where
  "step E r (In (Chunk c)) =
     (if in_flowing r then
        (let (s', out) = cipher_update E (cipher_state r) c
         in r\<lparr>cipher_state := s',
              written := (if out_piped r then written r @ out else written r)\<rparr>)
      else r)"
| "step E r (In End) =
     (if in_flowing r then
        (let (s', out) = cipher_final E (cipher_state r)
         in r\<lparr>cipher_state := s',
              written := (if out_piped r then written r @ out else written r),
              in_flowing := False,
              settled := settle (settled r) (Resolved (getAuthTag E s'))\<rparr>)
      else r)"
| "step E r (In (Failure e)) =
     (if in_flowing r then
        r\<lparr>in_flowing := False, settled := settle (settled r) (Rejected e)\<rparr>
      else r)"
| "step E r (Out_error e) =
     r\<lparr>out_piped := False, settled := settle (settled r) (Rejected e)\<rparr>"

text \<open>
  \<^verbatim>\<open>fs.createWriteStream\<close> on a name of the output directory: the file is created, or
  emptied.
\<close>

definition createWriteStream :: "string \<Rightarrow> state \<Rightarrow> state" where
  "createWriteStream name st = st\<lparr>dist_dir := (dist_dir st)(name \<mapsto> [])\<rparr>"

text \<open>
  \<^verbatim>\<open>_encryptStream(masterKey, inStream, outStream)\<close>, with the output stream given by
  the name of its file. The result is the pipeline once every event has been handled.
\<close>

definition encryptStream ::
  "'s env \<Rightarrow> bytes \<Rightarrow> in_event list \<Rightarrow> string \<Rightarrow> state \<Rightarrow> 's pipeline \<times> state" where
  "encryptStream E masterKey inStream outName st =
     (let (fileKey, p1) = randomBytes (tape E) 32 (rng_pos st);
          (fileIV, p2) = randomBytes (tape E) 12 p1;
          wrappedKey = kw_encrypt E masterKey fileKey;
          r0 = \<lparr>written = wrappedKey @ fileIV,
                cipher_state = createCipheriv E ''aes-256-gcm'' fileKey fileIV,
                in_flowing = True, out_piped = True, settled = Pending\<rparr>;
          r = foldl (step E) r0 (schedule inStream (out_fault E outName))
      in (r, st\<lparr>rng_pos := p2, dist_dir := (dist_dir st)(outName \<mapsto> written r)\<rparr>))"

text \<open>
  The chunks a readable stream delivers before it ends or fails, and the same read off the
  events of a pipeline, where an error of the output stream delivers nothing.
\<close>

fun stream_chunks :: "in_event list \<Rightarrow> bytes list" where
  "stream_chunks [] = []"
| "stream_chunks (Chunk c # es) = c # stream_chunks es"
| "stream_chunks (End # es) = []"
| "stream_chunks (Failure e # es) = []"

fun trace_chunks :: "event list \<Rightarrow> bytes list" where
  "trace_chunks [] = []"
| "trace_chunks (In (Chunk c) # es) = c # trace_chunks es"
| "trace_chunks (In End # es) = []"
| "trace_chunks (In (Failure e) # es) = []"
| "trace_chunks (Out_error e # es) = trace_chunks es"

text \<open>
  The cipher on a whole plaintext given in chunks: the bytes it emits for the chunks and at
  its end, and the tag it gives after its end.
\<close>

fun cipher_run :: "'s env \<Rightarrow> 's \<Rightarrow> bytes list \<Rightarrow> 's \<times> bytes" where
  "cipher_run E s [] = cipher_final E s"
| "cipher_run E s (c # cs) =
     (let (s1, out) = cipher_update E s c; (s2, outs) = cipher_run E s1 cs
      in (s2, out @ outs))"

definition gcm_ciphertext :: "'s env \<Rightarrow> bytes \<Rightarrow> bytes \<Rightarrow> bytes list \<Rightarrow> bytes" where
  "gcm_ciphertext E key iv chunks =
     snd (cipher_run E (createCipheriv E ''aes-256-gcm'' key iv) chunks)"

definition gcm_tag :: "'s env \<Rightarrow> bytes \<Rightarrow> bytes \<Rightarrow> bytes list \<Rightarrow> bytes" where
  "gcm_tag E key iv chunks =
     getAuthTag E (fst (cipher_run E (createCipheriv E ''aes-256-gcm'' key iv) chunks))"

text \<open>
  The first error to arrive while the input stream is still open: an error of the input
  stream or of the output stream, before the end of the input.
\<close>

fun first_error :: "event list \<Rightarrow> error option" where
  "first_error [] = None"
| "first_error (In (Chunk c) # es) = first_error es"
| "first_error (In End # es) = None"
| "first_error (In (Failure e) # es) = Some e"
| "first_error (Out_error e # es) = Some e"

subsection \<open>Content encryption and the index\<close>

text \<open>
  The body of the loop of \<^verbatim>\<open>_encryptContent\<close> on one record: the random name, the write
  stream, the pre-processing, the encryption, and the two properties set on the record
  that pre-processing returned.
\<close>

definition encryptEntry ::
  "'s env \<Rightarrow> bytes \<Rightarrow> content_file \<Rightarrow> state \<Rightarrow> (error + content_file) \<times> state" where
  "encryptEntry E masterKey el st =
     (let (d, p) = randomBytes (tape E) 12 (rng_pos st);
          distName = toHex d;
          st1 = createWriteStream distName (st\<lparr>rng_pos := p\<rparr>)
      in case content_process E el of
           Inl e \<Rightarrow> (Inl e, st1)
         | Inr (el', inStream) \<Rightarrow>
             (let (r, st2) = encryptStream E masterKey inStream distName st1
              in case await (settled r) of
                   Inl e \<Rightarrow> (Inl e, st2)
                 | Inr tagBuf \<Rightarrow>
                     (Inr (el'\<lparr>dist := Some distName, tag := Some (toBase64 tagBuf)\<rparr>),
                      st2)))"

text \<open>
  \<^verbatim>\<open>_encryptContent(masterKey, content)\<close> on values. The clone
  \<^verbatim>\<open>JSON.parse(JSON.stringify(content))\<close> has the property values of \<^verbatim>\<open>content\<close>, and
  \<^verbatim>\<open>for (const i in result)\<close> visits the indices of the array in increasing order; the
  first failure ends the loop. The identity of the objects is the subject of the store
  model below.
\<close>

fun encryptContent ::
  "'s env \<Rightarrow> bytes \<Rightarrow> content_file list \<Rightarrow> state \<Rightarrow> (error + content_file list) \<times> state"
where
  "encryptContent E masterKey [] st = (Inr [], st)"
| "encryptContent E masterKey (el # rest) st =
     (case encryptEntry E masterKey el st of
        (Inl e, st1) \<Rightarrow> (Inl e, st1)
      | (Inr el', st1) \<Rightarrow>
          (case encryptContent E masterKey rest st1 of
             (Inl e, st2) \<Rightarrow> (Inl e, st2)
           | (Inr rest', st2) \<Rightarrow> (Inr (el' # rest'), st2)))"

text \<open>
  \<^verbatim>\<open>_createIndex(masterKey, content)\<close>: the serialized list is the single chunk of the
  input stream, which then ends; the promise of \<^verbatim>\<open>_encryptStream\<close> is returned as it is.
\<close>

definition createIndex ::
  "'s env \<Rightarrow> bytes \<Rightarrow> content_file list \<Rightarrow> state \<Rightarrow> bytes promise \<times> state" where
  "createIndex E masterKey content st =
     (let indexData = json_stringify E content;
          inStream = [Chunk indexData, End];
          st1 = createWriteStream ''_index'' st;
          (r, st2) = encryptStream E masterKey inStream ''_index'' st1
      in (settled r, st2))"

text \<open>
  A record of the encrypted list stems from a scanned record when it is what
  pre-processing returned for it, with \<^verbatim>\<open>dist\<close> and \<^verbatim>\<open>tag\<close> set.
\<close>

definition enriched :: "'s env \<Rightarrow> content_file \<Rightarrow> content_file \<Rightarrow> bool" where
  "enriched E x y =
     (case content_process E x of
        Inl e \<Rightarrow> False
      | Inr (el', ins) \<Rightarrow>
          dist y \<noteq> None \<and> tag y \<noteq> None \<and> y = el'\<lparr>dist := dist y, tag := tag y\<rparr>)"

text \<open>
  The twelve random bytes from which the name of the \<open>i\<close>-th file is made, when the
  encryption of the content starts at position \<open>p\<close> of the tape: each file takes 12 bytes
  for its name, 32 for its key and 12 for its nonce.
\<close>

definition dist_draw :: "(nat \<Rightarrow> byte) \<Rightarrow> nat \<Rightarrow> nat \<Rightarrow> bytes" where
  "dist_draw t p i = map t [p + 56 * i ..< p + 56 * i + 12]"

subsection \<open>Build\<close>

text \<open>The state once the output directory has been emptied.\<close>

definition cleaned :: "state \<Rightarrow> state" where
  "cleaned st = st\<lparr>dist_dir := Map.empty\<rparr>"

text \<open>
  Modelled from the spec: \<^verbatim>\<open>CleanDirectory\<close> of \<^verbatim>\<open>lib/Utils\<close> is not among the
  sources. The specification says of the CLEAN step: "remove prior build output directory
  contents", and lists a failed clean among the fatal filesystem errors. A clean that
  fails rejects with its error and leaves the files it had not removed yet.
\<close>

definition CleanDirectory :: "'s env \<Rightarrow> state \<Rightarrow> (error + unit) \<times> state" where
  "CleanDirectory E st =
     (case clean_fault E of
        None \<Rightarrow> (Inr (), cleaned st)
      | Some (e, removed) \<Rightarrow>
          (Inl e,
           st\<lparr>dist_dir := (\<lambda>name. if removed name then None else dist_dir st name)\<rparr>))"

text \<open>
  The local variables of \<^verbatim>\<open>build\<close> a completed build leaves behind: \<^verbatim>\<open>masterKey\<close>, the
  list \<^verbatim>\<open>content\<close> as \<^verbatim>\<open>_scanContent\<close> returned it, and \<^verbatim>\<open>content\<close> as it was handed
  to \<^verbatim>\<open>_createIndex\<close>.
\<close>

record locals =
  l_masterKey :: bytes
  l_scanned :: "content_file list"
  l_content :: "content_file list"

text \<open>
  \<^verbatim>\<open>build()\<close>, step by step. The first step awaits \<^verbatim>\<open>CleanDirectory\<close>: when it
  rejects, the build stops with its error before the scan. A failure leaves the state as
  it was when it happened. What webpack prints is not modelled.
\<close>

definition build :: "'s env \<Rightarrow> config \<Rightarrow> string \<Rightarrow> state \<Rightarrow> (error + locals) \<times> state" where
  "build E cfg passphrase st0 =
     (let cleanResult = CleanDirectory E st0; st1 = snd cleanResult in
      case fst cleanResult of
        Inl e \<Rightarrow> (Inl e, st1)
      | Inr u \<Rightarrow>
     (case scanContent E of
        Inl e \<Rightarrow> (Inl e, st1)
      | Inr content \<Rightarrow>
     (let (salt, p) = randomBytes (tape E) 64 (rng_pos st1);
          st2 = st1\<lparr>rng_pos := p, keySalt := Some salt\<rparr> in
      case deriveKey E cfg (passphrase @ appToken cfg) salt of
        Inl e \<Rightarrow> (Inl e, st2)
      | Inr masterKey \<Rightarrow>
     (case encryptContent E masterKey content st2 of
        (Inl e, st3) \<Rightarrow> (Inl e, st3)
      | (Inr content', st3) \<Rightarrow>
     (let (pr, st4) = createIndex E masterKey content' st3 in
      case await pr of
        Inl e \<Rightarrow> (Inl e, st4)
      | Inr tagBuf \<Rightarrow>
     (let st5 = st4\<lparr>indexTag := Some (Buffer tagBuf)\<rparr>;
          appParams =
            \<lparr>ap_distDir = distDir cfg,
             ap_authIssuer = ''https://'' @ auth0_domain cfg,
             ap_authClientId = auth0_hereditasClientId cfg,
             ap_idTokenNamespace = ''https://hereditas.app'',
             ap_indexTag = indexTag st5,
             ap_keySalt = keySalt st5,
             ap_kdf = kdf cfg,
             ap_pbkdf2Iterations = pbkdf2_iterations cfg,
             ap_argon2Memory = argon2_memory cfg\<rparr> in
      case webpack E appParams of
        Inl e \<Rightarrow> (Inl e, st5)
      | Inr webpackStats \<Rightarrow>
          (Inr \<lparr>l_masterKey = masterKey, l_scanned = content, l_content = content'\<rparr>,
           if stats_hasErrors webpackStats then st5\<lparr>hasErrors := True\<rparr> else st5)))))))"

subsection \<open>The content list as objects in a store\<close>

text \<open>
  JavaScript arrays and objects are references. A store holds the records and the arrays
  (lists of references to records) allocated so far, and the next free reference.
\<close>

record store =
  objs :: "nat \<rightharpoonup> content_file"
  arrays :: "nat \<rightharpoonup> nat list"
  next_ref :: nat

definition new_object :: "store \<Rightarrow> content_file \<Rightarrow> nat \<times> store" where
  "new_object h v =
     (next_ref h, h\<lparr>objs := (objs h)(next_ref h \<mapsto> v), next_ref := Suc (next_ref h)\<rparr>)"

fun new_objects :: "store \<Rightarrow> content_file list \<Rightarrow> nat list \<times> store" where
  "new_objects h [] = ([], h)"
| "new_objects h (v # vs) =
     (let (r, h1) = new_object h v; (rs, h2) = new_objects h1 vs in (r # rs, h2))"

definition new_array :: "store \<Rightarrow> nat list \<Rightarrow> nat \<times> store" where
  "new_array h rs =
     (next_ref h, h\<lparr>arrays := (arrays h)(next_ref h \<mapsto> rs), next_ref := Suc (next_ref h)\<rparr>)"

text \<open>The records an array holds, in order; \<open>None\<close> when a reference dangles.\<close>

definition read_array :: "store \<Rightarrow> nat \<Rightarrow> content_file list option" where
  "read_array h a =
     (case arrays h a of None \<Rightarrow> None | Some rs \<Rightarrow> those (map (objs h) rs))"

text \<open>
  \<^verbatim>\<open>JSON.parse(JSON.stringify(content))\<close>: a new array of new objects with the same
  property values.
\<close>

definition json_clone :: "store \<Rightarrow> nat \<Rightarrow> (nat \<times> store) option" where
  "json_clone h a =
     (case read_array h a of
        None \<Rightarrow> None
      | Some vs \<Rightarrow>
          (let (rs, h1) = new_objects h vs; (a', h2) = new_array h1 rs in Some (a', h2)))"

text \<open>
  The loop of \<^verbatim>\<open>_encryptContent\<close> over the elements of \<^verbatim>\<open>result\<close>: the body runs on
  the record an element refers to, and the enriched record is what the element refers to
  afterwards. When the body throws, \<^verbatim>\<open>result\<close> is dropped with the call, and the store
  is left as it was before that iteration.
\<close>

fun encryptLoop ::
  "'s env \<Rightarrow> bytes \<Rightarrow> nat list \<Rightarrow> store \<Rightarrow> state \<Rightarrow> (error + unit) \<times> store \<times> state" where
  "encryptLoop E masterKey [] h st = (Inr (), h, st)"
| "encryptLoop E masterKey (r # rs) h st =
     (case objs h r of
        None \<Rightarrow> (Inl (Io_error ''TypeError''), h, st)
      | Some el \<Rightarrow>
          (case encryptEntry E masterKey el st of
             (Inl e, st1) \<Rightarrow> (Inl e, h, st1)
           | (Inr el', st1) \<Rightarrow>
               encryptLoop E masterKey rs (h\<lparr>objs := (objs h)(r \<mapsto> el')\<rparr>) st1))"

text \<open>
  \<^verbatim>\<open>_encryptContent(masterKey, content)\<close> on the store: \<open>a\<close> is the reference held by
  the parameter \<^verbatim>\<open>content\<close>, the result is the reference held by \<^verbatim>\<open>result\<close>.
\<close>

definition encryptContent_store ::
  "'s env \<Rightarrow> bytes \<Rightarrow> nat \<Rightarrow> store \<Rightarrow> state \<Rightarrow> (error + nat) \<times> store \<times> state" where
  "encryptContent_store E masterKey a h st =
     (case json_clone h a of
        None \<Rightarrow> (Inl (Io_error ''TypeError''), h, st)
      | Some (a', h1) \<Rightarrow>
          (case arrays h1 a' of
             None \<Rightarrow> (Inl (Io_error ''TypeError''), h1, st)
           | Some rs \<Rightarrow>
               (case encryptLoop E masterKey rs h1 st of
                  (Inl e, h2, st2) \<Rightarrow> (Inl e, h2, st2)
                | (Inr u, h2, st2) \<Rightarrow> (Inr a', h2, st2))))"

text \<open>
  A store is well formed when every reference in use is below the next free one and every
  array holds references to records.
\<close>

definition wf_store :: "store \<Rightarrow> bool" where
  "wf_store h =
     ((\<forall>r. r \<in> dom (objs h) \<longrightarrow> r < next_ref h) \<and>
      (\<forall>a. a \<in> dom (arrays h) \<longrightarrow> a < next_ref h) \<and>
      (\<forall>a rs. arrays h a = Some rs \<longrightarrow> set rs \<subseteq> dom (objs h)))"

subsection \<open>Sample environment\<close>

text \<open>
  A small environment on which the definitions are evaluated: a cipher that adds one to
  every byte and whose tag is the number of bytes seen, a key wrap that puts eight bytes
  before the key, and a tape whose byte at position \<open>i\<close> is \<open>i\<close>.
\<close>

definition sample_env :: "nat env" where
  "sample_env =
     \<lparr>tape = (\<lambda>i. of_nat i),
      content_root = Dir [(''a.txt'', File 5), (''.DS_Store'', File 9),
                          (''sub'', Dir [(''b.txt'', File 3)])],
      pbkdf2 = (\<lambda>pw s it n d. Inr (replicate n (of_nat (length pw)))),
      argon2_hash = (\<lambda>ps. Inr (replicate (a_hashLen ps) (of_nat (a_mem ps)))),
      kw_encrypt = (\<lambda>mk k. replicate 8 166 @ k),
      createCipheriv = (\<lambda>alg k iv. 0),
      cipher_update = (\<lambda>s c. (s + length c, map (\<lambda>b. b + 1) c)),
      cipher_final = (\<lambda>s. (s, [])),
      getAuthTag = (\<lambda>s. [of_nat s, 7, 7]),
      json_stringify = (\<lambda>recs. map (\<lambda>f. of_nat (length (path f))) recs),
      content_process = (\<lambda>f. Inr (f\<lparr>display := Some Attach\<rparr>,
                                 [Chunk (replicate (size_bytes f) 65), End])),
      out_fault = (\<lambda>name. None),
      clean_fault = None,
      webpack = (\<lambda>ps. Inr \<lparr>stats_hasErrors = False, stats_hasWarnings = False\<rparr>)\<rparr>"

definition sample_config :: config where
  "sample_config =
     \<lparr>distDir = ''dist'', contentDir = ''content'', kdf = ''pbkdf2'',
      pbkdf2_iterations = 1000, argon2_memory = 64, appToken = ''token'',
      auth0_domain = ''example.auth0.com'', auth0_hereditasClientId = ''client''\<rparr>"

text \<open>
  The sample environment on a disk that fills up: every write stream fails with
  \<^verbatim>\<open>ENOSPC\<close> when its last bytes are flushed, after two events of its input.
\<close>

definition full_disk_env :: "nat env" where
  "full_disk_env = sample_env\<lparr>out_fault := (\<lambda>name. Some (2, Io_error ''ENOSPC''))\<rparr>"

text \<open>
  The sample environment with an output directory that cannot be cleaned: the clean fails
  with \<^verbatim>\<open>EACCES\<close> before it has removed anything.
\<close>

definition failed_clean_env :: "nat env" where
  "failed_clean_env =
     sample_env\<lparr>clean_fault := Some (Io_error ''EACCES'', (\<lambda>name. False))\<rparr>"

text \<open>The sample environment with a random source that returns zeros only.\<close>

definition zero_tape_env :: "nat env" where
  "zero_tape_env = sample_env\<lparr>tape := (\<lambda>i. 0)\<rparr>"

text \<open>
  A store as the scanner leaves it for a content directory that holds \<^verbatim>\<open>a.txt\<close> only:
  the record at reference 0, the list \<^verbatim>\<open>content\<close> at reference 1.
\<close>

definition scanned_store :: store where
  "scanned_store =
     \<lparr>objs = [0 \<mapsto> \<lparr>path = ''a.txt'', size_bytes = 5, dist = None, tag = None,
                      processed = None, display = None\<rparr>],
      arrays = [1 \<mapsto> [0]],
      next_ref = 2\<rparr>"

section \<open>Properties\<close>

lemma cleaned_fields:
  "rng_pos (cleaned st) = rng_pos st"
  "keySalt (cleaned st) = keySalt st"
  "indexTag (cleaned st) = indexTag st"
  "hasErrors (cleaned st) = hasErrors st"
  "dist_dir (cleaned st) = Map.empty"
  by (simp_all add: cleaned_def)

lemma build_needs_clean:
  assumes "build E cfg pw st0 = (Inr L, st')"
  shows "clean_fault E = None"
proof (cases "clean_fault E")
  case None
  then show ?thesis .
next
  case (Some f)
  then show ?thesis using assms
    by (cases f) (simp add: build_def Let_def CleanDirectory_def)
qed

subsection \<open>The deny-list of the path filter\<close>

lemma endsWith_tilde: "endsWith base ''~'' = (base \<noteq> [] \<and> last base = CHR ''~'')"
proof (cases base rule: rev_cases)
  case Nil
  then show ?thesis by (simp add: endsWith_def)
next
  case (snoc ys y)
  then show ?thesis by (simp add: endsWith_def)
qed

lemma startsWith_dot_underscore:
  "startsWith base ''._'' =
     (case base of a # b # _ \<Rightarrow> a = CHR ''.'' \<and> b = CHR ''_'' | _ \<Rightarrow> False)"
  by (simp add: startsWith_def split: list.splits)

lemma basename_plain: "CHR ''/'' \<notin> set n \<Longrightarrow> basename n = n"
proof -
  assume h: "CHR ''/'' \<notin> set n"
  have b: "takeWhile (\<lambda>c. c \<noteq> CHR ''/'') (rev n) = rev n"
    using h by auto
  have a: "dropWhile (\<lambda>c. c = CHR ''/'') (rev n) = rev n"
    using h by (cases n rule: rev_cases) auto
  show ?thesis by (simp add: basename_def a b)
qed

text \<open>
  C10. \<^verbatim>\<open>includePath\<close> is a function of the path string alone; it returns false exactly
  when the basename is one of the eight denied names, ends with a tilde or starts with
  \<^verbatim>\<open>._\<close>, and true for every other name, \<^verbatim>\<open>notes.txt\<close> among them.
\<close>

theorem includePath_deny_list:
  "includePath p = (\<not> spec_excluded (basename p)) \<and>
   includePath ''notes.txt'' \<and>
   \<not> includePath ''.DS_Store'' \<and> \<not> includePath ''Thumbs.db'' \<and>
   \<not> includePath ''desktop.ini'' \<and> \<not> includePath (n @ ''~'')"
proof -
  have 1: "includePath p = (\<not> spec_excluded (basename p))"
    unfolding includePath_def spec_excluded_def spec_denied_names_def Let_def
      endsWith_tilde startsWith_dot_underscore
    by auto
  have 2: "includePath ''notes.txt''"
    by (simp add: includePath_def basename_def endsWith_def startsWith_def)
  have 3: "\<not> includePath ''.DS_Store''"
    by (simp add: includePath_def basename_def endsWith_def startsWith_def)
  have 4: "\<not> includePath ''Thumbs.db''"
    by (simp add: includePath_def basename_def endsWith_def startsWith_def)
  have 5: "\<not> includePath ''desktop.ini''"
    by (simp add: includePath_def basename_def endsWith_def startsWith_def)
  have 6: "\<not> includePath (n @ ''~'')"
    by (simp add: includePath_def basename_def endsWith_def Let_def)
  from 1 2 3 4 5 6 show ?thesis by blast
qed

subsection \<open>The pipeline of one stream\<close>

lemma settled_stays:
  "settled r \<noteq> Pending \<Longrightarrow> settled (foldl (step E) r evs) = settled r"
proof (induction evs arbitrary: r)
  case Nil
  then show ?case by simp
next
  case (Cons ev evs)
  have "settled (step E r ev) = settled r"
    using Cons.prems
    by (cases "(E, r, ev)" rule: step.cases; cases "settled r")
       (auto split: prod.splits)
  with Cons show ?case by simp
qed

lemma closed_stays:
  "\<not> in_flowing r \<Longrightarrow> settled r \<noteq> Pending \<Longrightarrow>
   written (foldl (step E) r evs) = written r \<and>
   cipher_state (foldl (step E) r evs) = cipher_state r"
proof (induction evs arbitrary: r)
  case Nil
  then show ?case by simp
next
  case (Cons ev evs)
  have "\<not> in_flowing (step E r ev) \<and> settled (step E r ev) \<noteq> Pending \<and>
        written (step E r ev) = written r \<and> cipher_state (step E r ev) = cipher_state r"
    using Cons.prems
    by (cases "(E, r, ev)" rule: step.cases; cases "settled r") auto
  with Cons.IH [of "step E r ev"] show ?case by simp
qed

lemma trace_chunks_map_In: "trace_chunks (map In ins) = stream_chunks ins"
  by (induction ins rule: stream_chunks.induct) auto

lemma trace_chunks_insert:
  "trace_chunks (map In (take n ins) @ Out_error e # map In (drop n ins)) = stream_chunks ins"
proof (induction ins arbitrary: n rule: stream_chunks.induct)
  case 1
  then show ?case by simp
next
  case (2 c es)
  then show ?case by (cases n) (auto simp: trace_chunks_map_In)
next
  case (3 es)
  then show ?case by (cases n) (auto simp: trace_chunks_map_In)
next
  case (4 e' es)
  then show ?case by (cases n) (auto simp: trace_chunks_map_In)
qed

lemma trace_chunks_schedule: "trace_chunks (schedule ins fault) = stream_chunks ins"
  by (cases fault) (auto simp: schedule_def trace_chunks_map_In trace_chunks_insert)

lemma resolved_run:
  "in_flowing r \<Longrightarrow> out_piped r \<Longrightarrow> settled r = Pending \<Longrightarrow>
   settled (foldl (step E) r evs) = Resolved t \<Longrightarrow>
   written (foldl (step E) r evs) = written r @ snd (cipher_run E (cipher_state r) (trace_chunks evs)) \<and>
   t = getAuthTag E (fst (cipher_run E (cipher_state r) (trace_chunks evs))) \<and>
   cipher_state (foldl (step E) r evs) = fst (cipher_run E (cipher_state r) (trace_chunks evs))"
proof (induction evs arbitrary: r rule: trace_chunks.induct)
  case 1
  then show ?case by simp
next
  case (2 c es)
  obtain s' out where u: "cipher_update E (cipher_state r) c = (s', out)" by force
  let ?r = "step E r (In (Chunk c))"
  have st: "?r = r\<lparr>cipher_state := s', written := written r @ out\<rparr>"
    using 2(2,3) u by simp
  have "in_flowing ?r" "out_piped ?r" "settled ?r = Pending"
    using 2(2,3,4) st by simp_all
  moreover have "settled (foldl (step E) ?r es) = Resolved t" using 2(5) by simp
  ultimately have ih: "written (foldl (step E) ?r es) = written ?r @ snd (cipher_run E (cipher_state ?r) (trace_chunks es)) \<and>
   t = getAuthTag E (fst (cipher_run E (cipher_state ?r) (trace_chunks es))) \<and>
   cipher_state (foldl (step E) ?r es) = fst (cipher_run E (cipher_state ?r) (trace_chunks es))"
    using 2(1) by blast
  show ?case using ih st u by (simp add: split_beta)
next
  case (3 es)
  obtain s' out where u: "cipher_final E (cipher_state r) = (s', out)" by force
  let ?r = "step E r (In End)"
  have st: "?r = r\<lparr>cipher_state := s', written := written r @ out, in_flowing := False,
      settled := Resolved (getAuthTag E s')\<rparr>"
    using 3 u by simp
  have c: "\<not> in_flowing ?r" "settled ?r \<noteq> Pending" using st by simp_all
  have "settled (foldl (step E) ?r es) = settled ?r" using settled_stays c by blast
  moreover have "written (foldl (step E) ?r es) = written ?r \<and>
   cipher_state (foldl (step E) ?r es) = cipher_state ?r" using closed_stays c by blast
  ultimately show ?case using 3(4) st u by simp
next
  case (4 e es)
  let ?r = "step E r (In (Failure e))"
  have "settled ?r = Rejected e" using 4 by simp
  then have "settled (foldl (step E) ?r es) = Rejected e" using settled_stays [of ?r E es] by simp
  then show ?case using 4(4) by simp
next
  case (5 e es)
  let ?r = "step E r (Out_error e)"
  have "settled ?r = Rejected e" using 5 by simp
  then have "settled (foldl (step E) ?r es) = Rejected e" using settled_stays [of ?r E es] by simp
  then show ?case using 5(5) by simp
qed

lemma cipher_run_length:
  "gcm_spec E \<Longrightarrow> length (snd (cipher_run E s cs)) = length (concat cs)"
proof (induction cs arbitrary: s)
  case Nil
  then show ?case by (simp add: gcm_spec_def)
next
  case (Cons c cs)
  obtain s1 out where u: "cipher_update E s c = (s1, out)" by force
  have "length out = length c"
    using Cons.prems u unfolding gcm_spec_def by (metis snd_conv)
  then show ?case using Cons u by (simp add: split_beta)
qed

lemma encryptStream_resolved:
  assumes run: "encryptStream E masterKey inStream outName st = (r, st')"
    and res: "settled r = Resolved t"
  shows "written r =
           kw_encrypt E masterKey (map (tape E) [rng_pos st ..< rng_pos st + 32]) @
           map (tape E) [rng_pos st + 32 ..< rng_pos st + 32 + 12] @
           gcm_ciphertext E (map (tape E) [rng_pos st ..< rng_pos st + 32])
             (map (tape E) [rng_pos st + 32 ..< rng_pos st + 32 + 12]) (stream_chunks inStream)"
    and "t = gcm_tag E (map (tape E) [rng_pos st ..< rng_pos st + 32])
             (map (tape E) [rng_pos st + 32 ..< rng_pos st + 32 + 12]) (stream_chunks inStream)"
    and "dist_dir st' outName = Some (written r)"
    and "rng_pos st' = rng_pos st + 44"
proof -
  let ?fk = "map (tape E) [rng_pos st ..< rng_pos st + 32]"
  let ?iv = "map (tape E) [rng_pos st + 32 ..< rng_pos st + 32 + 12]"
  let ?r0 = "\<lparr>written = kw_encrypt E masterKey ?fk @ ?iv,
              cipher_state = createCipheriv E ''aes-256-gcm'' ?fk ?iv,
              in_flowing = True, out_piped = True, settled = Pending\<rparr>"
  let ?evs = "schedule inStream (out_fault E outName)"
  have r: "r = foldl (step E) ?r0 ?evs"
    using run by (simp add: encryptStream_def randomBytes_def Let_def)
  have st': "st' = st\<lparr>rng_pos := rng_pos st + 32 + 12, dist_dir := (dist_dir st)(outName \<mapsto> written r)\<rparr>"
    using run by (auto simp add: encryptStream_def randomBytes_def Let_def)
  have "settled (foldl (step E) ?r0 ?evs) = Resolved t" using res r by simp
  from resolved_run [of ?r0 E ?evs t, OF _ _ _ this]
  have k: "written r = written ?r0 @ snd (cipher_run E (cipher_state ?r0) (trace_chunks ?evs))"
       "t = getAuthTag E (fst (cipher_run E (cipher_state ?r0) (trace_chunks ?evs)))"
    using r by simp_all
  show "written r = kw_encrypt E masterKey ?fk @ ?iv @ gcm_ciphertext E ?fk ?iv (stream_chunks inStream)"
    using k(1) by (simp add: gcm_ciphertext_def trace_chunks_schedule)
  show "t = gcm_tag E ?fk ?iv (stream_chunks inStream)"
    using k(2) by (simp add: gcm_tag_def trace_chunks_schedule)
  show "dist_dir st' outName = Some (written r)" using st' by simp
  show "rng_pos st' = rng_pos st + 44" using st' by simp
qed

lemma closed_written:
  "\<not> in_flowing r \<Longrightarrow> written (foldl (step E) r evs) = written r"
proof (induction evs arbitrary: r)
  case Nil
  then show ?case by simp
next
  case (Cons ev evs)
  have "\<not> in_flowing (step E r ev) \<and> written (step E r ev) = written r"
    using Cons.prems by (cases "(E, r, ev)" rule: step.cases) auto
  with Cons.IH [of "step E r ev"] show ?case by simp
qed

lemma written_bounded:
  assumes "gcm_spec E"
  shows "\<exists>ct. written (foldl (step E) r evs) = written r @ ct \<and>
              length ct \<le> (if in_flowing r then length (concat (trace_chunks evs)) else 0)"
proof (induction evs arbitrary: r rule: trace_chunks.induct)
  case 1
  then show ?case by simp
next
  case (2 c es)
  obtain s' out where u: "cipher_update E (cipher_state r) c = (s', out)" by force
  have lo: "length out = length c"
    using assms u unfolding gcm_spec_def by (metis snd_conv)
  let ?r = "step E r (In (Chunk c))"
  from 2 [of ?r] obtain ct where
    c1: "written (foldl (step E) ?r es) = written ?r @ ct" and
    c2: "length ct \<le> (if in_flowing ?r then length (concat (trace_chunks es)) else 0)"
    by blast
  show ?case
  proof (cases "in_flowing r")
    case False
    then have same: "?r = r" by simp
    have A: "written (foldl (step E) ?r es) = written r @ ct" using c1 same by simp
    have B: "length ct \<le> (if in_flowing r
               then length (concat (trace_chunks (In (Chunk c) # es))) else 0)"
      using c2 same False by simp
    show ?thesis unfolding foldl_Cons using A B by blast
  next
    case True
    then have fl: "in_flowing ?r" using u by simp
    have "written ?r = written r @ out \<or> written ?r = written r"
      using True u by simp
    then consider (piped) "written ?r = written r @ out" | (detached) "written ?r = written r"
      by blast
    then show ?thesis
    proof cases
      case piped
      have A: "written (foldl (step E) ?r es) = written r @ (out @ ct)"
        by (simp only: c1 piped append_assoc)
      have B: "length (out @ ct) \<le> (if in_flowing r
               then length (concat (trace_chunks (In (Chunk c) # es))) else 0)"
        using c2 fl lo True by simp
      show ?thesis unfolding foldl_Cons using A B by blast
    next
      case detached
      have A: "written (foldl (step E) ?r es) = written r @ ct"
        by (simp only: c1 detached)
      have B: "length ct \<le> (if in_flowing r
               then length (concat (trace_chunks (In (Chunk c) # es))) else 0)"
        using c2 fl True by simp
      show ?thesis unfolding foldl_Cons using A B by blast
    qed
  qed
next
  case (3 es)
  obtain s' out where u: "cipher_final E (cipher_state r) = (s', out)" by force
  have lo: "out = []" using assms u unfolding gcm_spec_def by (metis snd_conv)
  let ?r = "step E r (In End)"
  have nf: "\<not> in_flowing ?r" using u by (cases "in_flowing r") simp_all
  have w: "written ?r = written r" using u lo by (cases "in_flowing r") simp_all
  have "written (foldl (step E) ?r es) = written ?r" using closed_written [OF nf] .
  then have A: "written (foldl (step E) ?r es) = written r @ []" by (simp only: w append_Nil2)
  have B: "length ([] :: bytes) \<le> (if in_flowing r
             then length (concat (trace_chunks (In End # es))) else 0)"
    by simp
  show ?case unfolding foldl_Cons using A B by blast
next
  case (4 e es)
  let ?r = "step E r (In (Failure e))"
  have nf: "\<not> in_flowing ?r" by (cases "in_flowing r") simp_all
  have w: "written ?r = written r" by (cases "in_flowing r") simp_all
  have "written (foldl (step E) ?r es) = written ?r" using closed_written [OF nf] .
  then have A: "written (foldl (step E) ?r es) = written r @ []" by (simp only: w append_Nil2)
  have B: "length ([] :: bytes) \<le> (if in_flowing r
             then length (concat (trace_chunks (In (Failure e) # es))) else 0)"
    by simp
  show ?case unfolding foldl_Cons using A B by blast
next
  case (5 e es)
  let ?r = "step E r (Out_error e)"
  have f: "in_flowing ?r = in_flowing r" and w: "written ?r = written r" by simp_all
  from 5 [of ?r] obtain ct where
    c1: "written (foldl (step E) ?r es) = written ?r @ ct" and
    c2: "length ct \<le> (if in_flowing ?r then length (concat (trace_chunks es)) else 0)"
    by blast
  have A: "written (foldl (step E) ?r es) = written r @ ct" by (simp only: c1 w)
  have B: "length ct \<le> (if in_flowing r
             then length (concat (trace_chunks (Out_error e # es))) else 0)"
    using c2 f by (auto split: if_splits)
  show ?case unfolding foldl_Cons using A B by blast
qed

text \<open>
  C1. The bytes a call of \<^verbatim>\<open>_encryptStream\<close> hands to the output stream are the
  wrapped file key (40 bytes: 8 more than the 32-byte file key), then the 12-byte nonce,
  then ciphertext, never more of it than the plaintext the input stream delivered. When
  the call resolves, the ciphertext is that of the whole plaintext and has its length,
  nothing follows it, and the authentication tag is the value the promise resolves with.
\<close>

theorem encryptStream_output_layout:
  assumes "kw_spec (kw_encrypt E)" and "gcm_spec E"
    and "encryptStream E masterKey inStream outName st = (r, st')"
    and "fileKey = fst (randomBytes (tape E) 32 (rng_pos st))"
    and "fileIV = fst (randomBytes (tape E) 12 (rng_pos st + 32))"
    and "plaintext = concat (stream_chunks inStream)"
  shows "length (kw_encrypt E masterKey fileKey) = 40 \<and>
         length fileIV = 12 \<and>
         (\<exists>ct. written r = kw_encrypt E masterKey fileKey @ fileIV @ ct \<and>
               length ct \<le> length plaintext) \<and>
         dist_dir st' outName = Some (written r) \<and>
         (settled r = Resolved t \<longrightarrow>
            written r =
              kw_encrypt E masterKey fileKey @ fileIV @
              gcm_ciphertext E fileKey fileIV (stream_chunks inStream) \<and>
            length (gcm_ciphertext E fileKey fileIV (stream_chunks inStream))
              = length plaintext \<and>
            length (written r) = 40 + 12 + length plaintext \<and>
            t = gcm_tag E fileKey fileIV (stream_chunks inStream))"
proof -
  have fk: "fileKey = map (tape E) [rng_pos st ..< rng_pos st + 32]"
    and iv: "fileIV = map (tape E) [rng_pos st + 32 ..< rng_pos st + 32 + 12]"
    using assms(4,5) by (simp_all add: randomBytes_def)
  let ?r0 = "\<lparr>written = kw_encrypt E masterKey fileKey @ fileIV,
              cipher_state = createCipheriv E ''aes-256-gcm'' fileKey fileIV,
              in_flowing = True, out_piped = True, settled = Pending\<rparr>"
  let ?evs = "schedule inStream (out_fault E outName)"
  have r: "r = foldl (step E) ?r0 ?evs"
    using assms(3) fk iv by (simp add: encryptStream_def randomBytes_def Let_def)
  have 1: "length (kw_encrypt E masterKey fileKey) = 40"
    using assms(1) fk by (simp add: kw_spec_def)
  have 2: "length fileIV = 12" using iv by simp
  from written_bounded [OF assms(2), of ?r0 ?evs] obtain ct where
    "written r = written ?r0 @ ct" "length ct \<le> length (concat (trace_chunks ?evs))"
    using r by auto
  then have 3: "\<exists>ct. written r = kw_encrypt E masterKey fileKey @ fileIV @ ct \<and>
               length ct \<le> length plaintext"
    using assms(6) by (simp add: trace_chunks_schedule)
  have 4: "dist_dir st' outName = Some (written r)"
    using assms(3) by (auto simp: encryptStream_def randomBytes_def Let_def)
  have 5: "settled r = Resolved t \<longrightarrow>
            written r =
              kw_encrypt E masterKey fileKey @ fileIV @
              gcm_ciphertext E fileKey fileIV (stream_chunks inStream) \<and>
            length (gcm_ciphertext E fileKey fileIV (stream_chunks inStream))
              = length plaintext \<and>
            length (written r) = 40 + 12 + length plaintext \<and>
            t = gcm_tag E fileKey fileIV (stream_chunks inStream)"
  proof
    assume res: "settled r = Resolved t"
    have a: "written r = kw_encrypt E masterKey fileKey @ fileIV @
             gcm_ciphertext E fileKey fileIV (stream_chunks inStream)"
      using encryptStream_resolved(1) [OF assms(3) res] fk iv by simp
    have b: "length (gcm_ciphertext E fileKey fileIV (stream_chunks inStream)) = length plaintext"
      using cipher_run_length [OF assms(2)] assms(6) by (simp add: gcm_ciphertext_def)
    have c: "length (written r) = 40 + 12 + length plaintext"
      using a b 1 2 by simp
    have d: "t = gcm_tag E fileKey fileIV (stream_chunks inStream)"
      using encryptStream_resolved(2) [OF assms(3) res] fk iv by simp
    from a b c d show "written r =
              kw_encrypt E masterKey fileKey @ fileIV @
              gcm_ciphertext E fileKey fileIV (stream_chunks inStream) \<and>
            length (gcm_ciphertext E fileKey fileIV (stream_chunks inStream))
              = length plaintext \<and>
            length (written r) = 40 + 12 + length plaintext \<and>
            t = gcm_tag E fileKey fileIV (stream_chunks inStream)"
      by blast
  qed
  from 1 2 3 4 5 show ?thesis by blast
qed

theorem encryptStream_output_layout_witness:
  "kw_spec (kw_encrypt sample_env) \<and> gcm_spec sample_env \<and>
   settled (fst (encryptStream sample_env [] [Chunk [1, 2, 3], End] ''f''
                  (new_builder Map.empty))) = Resolved [3, 7, 7] \<and>
   length (written (fst (encryptStream sample_env [] [Chunk [1, 2, 3], End] ''f''
                          (new_builder Map.empty)))) = 55"
proof -
  obtain r st' where run:
    "encryptStream sample_env [] [Chunk [1, 2, 3], End] ''f'' (new_builder Map.empty) = (r, st')"
    by force
  have h1: "kw_spec (kw_encrypt sample_env)"
    by (simp add: kw_spec_def sample_env_def)
  have h2: "gcm_spec sample_env"
    by (simp add: gcm_spec_def sample_env_def)
  have "settled (fst (encryptStream sample_env [] [Chunk [1, 2, 3], End] ''f''
                       (new_builder Map.empty))) = Resolved [3, 7, 7]"
    by code_simp
  then have res: "settled r = Resolved [3, 7, 7]" using run by simp
  from encryptStream_output_layout [OF h1 h2 run refl refl refl, of "[3, 7, 7]"] res
  have "length (written r) = 40 + 12 + length (concat (stream_chunks [Chunk [1, 2, 3], End]))"
    by blast
  then have "length (written r) = 55" by simp
  with h1 h2 res run show ?thesis by simp
qed

lemma first_error_rejects:
  "in_flowing r \<Longrightarrow> settled r = Pending \<Longrightarrow> first_error evs = Some e \<Longrightarrow>
   settled (foldl (step E) r evs) = Rejected e"
proof (induction evs arbitrary: r rule: first_error.induct)
  case 1
  then show ?case by simp
next
  case (2 c es)
  let ?r = "step E r (In (Chunk c))"
  have "in_flowing ?r \<and> settled ?r = Pending" using 2(2,3) by (simp add: split_beta)
  then show ?case using 2(1) [of ?r] 2(4) by simp
next
  case (3 es)
  then show ?case by simp
next
  case (4 e' es)
  let ?r = "step E r (In (Failure e'))"
  have "settled ?r = Rejected e" using 4 by simp
  then have "settled (foldl (step E) ?r es) = Rejected e"
    using settled_stays [of ?r E es] by simp
  then show ?case by simp
next
  case (5 e' es)
  let ?r = "step E r (Out_error e')"
  have "settled ?r = Rejected e" using 5 by simp
  then have "settled (foldl (step E) ?r es) = Rejected e"
    using settled_stays [of ?r E es] by simp
  then show ?case by simp
qed

text \<open>
  An error that arrives while the input stream is still open rejects the promise with
  that error, and the build that awaits it fails with it.
\<close>

lemma encryptStream_rejects:
  assumes "first_error (schedule inStream (out_fault E outName)) = Some e"
  shows "settled (fst (encryptStream E masterKey inStream outName st)) = Rejected e"
proof -
  let ?r0 = "\<lparr>written = kw_encrypt E masterKey (map (tape E) [rng_pos st ..< rng_pos st + 32]) @
                        map (tape E) [rng_pos st + 32 ..< rng_pos st + 32 + 12],
              cipher_state = createCipheriv E ''aes-256-gcm''
                 (map (tape E) [rng_pos st ..< rng_pos st + 32])
                 (map (tape E) [rng_pos st + 32 ..< rng_pos st + 32 + 12]),
              in_flowing = True, out_piped = True, settled = Pending\<rparr>"
  have "settled (foldl (step E) ?r0 (schedule inStream (out_fault E outName))) = Rejected e"
    using first_error_rejects [of ?r0 _ e E] assms by simp
  then show ?thesis
    by (simp add: encryptStream_def randomBytes_def Let_def)
qed

lemma encryptEntry_rejects:
  assumes "content_process E el = Inr (el', inStream)"
    and "first_error (schedule inStream
           (out_fault E (toHex (fst (randomBytes (tape E) 12 (rng_pos st)))))) = Some e"
  shows "fst (encryptEntry E masterKey el st) = Inl e"
  using assms encryptStream_rejects [OF assms(2)]
  by (simp add: encryptEntry_def Let_def split_beta)

lemma encryptContent_rejects:
  "fst (encryptEntry E masterKey el st) = Inl e \<Longrightarrow>
   fst (encryptContent E masterKey (el # rest) st) = Inl e"
  by (cases "encryptEntry E masterKey el st") (auto split: sum.splits)

lemma build_aborts_in_content:
  assumes "clean_fault E = None" and "scanContent E = Inr content"
    and "deriveKey E cfg (passphrase @ appToken cfg)
           (fst (randomBytes (tape E) 64 (rng_pos st0))) = Inr masterKey"
    and "fst (encryptContent E masterKey content
           ((cleaned st0)\<lparr>rng_pos := rng_pos st0 + 64,
              keySalt := Some (fst (randomBytes (tape E) 64 (rng_pos st0)))\<rparr>)) = Inl e"
  shows "fst (build E cfg passphrase st0) = Inl e"
  using assms
  by (auto simp: build_def Let_def randomBytes_def CleanDirectory_def cleaned_def split_beta
           split: sum.splits prod.splits)

text \<open>
  C8. An error of the input or of the output stream is meant to reject the promise of
  \<^verbatim>\<open>_encryptStream\<close>, so that no tag is produced for a failed stream and the build
  aborts. The promise is resolved when the cipher ends, not when the output stream has
  finished: on a disk that fills up while the last bytes are flushed, the error of the
  output stream arrives after the end of the input, the promise is already resolved with
  the tag, and the build completes with a tag for the index.
\<close>

theorem late_output_error_resolves:
  "schedule [Chunk [1, 2, 3], End] (out_fault full_disk_env ''f'')
     = [In (Chunk [1, 2, 3]), In End, Out_error (Io_error ''ENOSPC'')] \<and>
   settled (fst (encryptStream full_disk_env [] [Chunk [1, 2, 3], End] ''f''
                  (new_builder Map.empty))) = Resolved [3, 7, 7] \<and>
   \<not> isl (fst (build full_disk_env sample_config ''pw'' (new_builder Map.empty))) \<and>
   indexTag (snd (build full_disk_env sample_config ''pw'' (new_builder Map.empty)))
     = Some (Buffer [2, 7, 7])"
  by code_simp

subsection \<open>What the encryption of the content changes\<close>

lemma encryptStream_frame:
  assumes "encryptStream E masterKey inStream outName st = (r, st')"
  shows "st' = st\<lparr>rng_pos := rng_pos st + 44, dist_dir := (dist_dir st)(outName \<mapsto> written r)\<rparr>"
  using assms by (auto simp: encryptStream_def randomBytes_def Let_def)

lemma encryptEntry_frame:
  assumes "encryptEntry E masterKey el st = (x, st')"
  shows "keySalt st' = keySalt st \<and> indexTag st' = indexTag st \<and> hasErrors st' = hasErrors st \<and>
         (\<forall>name. name \<noteq> toHex (map (tape E) [rng_pos st ..< rng_pos st + 12]) \<longrightarrow>
            dist_dir st' name = dist_dir st name)"
proof (cases "content_process E el")
  case (Inl e)
  then show ?thesis using assms
    by (auto simp: encryptEntry_def randomBytes_def Let_def createWriteStream_def)
next
  case (Inr p)
  obtain el' ins where p: "p = (el', ins)" by (cases p)
  let ?n = "toHex (map (tape E) [rng_pos st ..< rng_pos st + 12])"
  let ?st1 = "createWriteStream ?n (st\<lparr>rng_pos := rng_pos st + 12\<rparr>)"
  obtain r st2 where run: "encryptStream E masterKey ins ?n ?st1 = (r, st2)" by force
  have "st' = st2" using assms Inr p run
    by (auto simp: encryptEntry_def randomBytes_def Let_def split: sum.splits)
  then show ?thesis using encryptStream_frame [OF run]
    by (simp add: createWriteStream_def)
qed

lemma encryptEntry_ok:
  assumes "encryptEntry E masterKey el st = (Inr y, st')"
  shows "\<exists>el' ins t. content_process E el = Inr (el', ins) \<and>
           y = el'\<lparr>dist := Some (toHex (map (tape E) [rng_pos st ..< rng_pos st + 12])),
                    tag := Some (toBase64 t)\<rparr> \<and>
           rng_pos st' = rng_pos st + 56"
proof (cases "content_process E el")
  case (Inl e)
  then show ?thesis using assms
    by (auto simp: encryptEntry_def randomBytes_def Let_def createWriteStream_def)
next
  case (Inr p)
  obtain el' ins where p: "p = (el', ins)" by (cases p)
  let ?n = "toHex (map (tape E) [rng_pos st ..< rng_pos st + 12])"
  let ?st1 = "createWriteStream ?n (st\<lparr>rng_pos := rng_pos st + 12\<rparr>)"
  obtain r st2 where run: "encryptStream E masterKey ins ?n ?st1 = (r, st2)" by force
  have e: "(case await (settled r) of Inl e \<Rightarrow> (Inl e, st2)
           | Inr tagBuf \<Rightarrow> (Inr (el'\<lparr>dist := Some ?n, tag := Some (toBase64 tagBuf)\<rparr>), st2)) = (Inr y, st')"
    using assms Inr p run
    by (simp add: encryptEntry_def randomBytes_def Let_def)
  then obtain t where t: "await (settled r) = Inr t" by (cases "await (settled r)") auto
  with e have "y = el'\<lparr>dist := Some ?n, tag := Some (toBase64 t)\<rparr>" "st' = st2" by auto
  moreover have "rng_pos st2 = rng_pos st + 56" using encryptStream_frame [OF run]
    by (simp add: createWriteStream_def)
  ultimately show ?thesis using Inr p by auto
qed

lemma hex_digit_in: "hex_digit n \<in> set ''0123456789abcdef''"
proof -
  have "n mod 16 < length ''0123456789abcdef''" by simp
  then show ?thesis unfolding hex_digit_def by (rule nth_mem)
qed

lemma toHex_chars: "set (toHex bs) \<subseteq> set ''0123456789abcdef''"
proof (induction bs)
  case Nil
  then show ?case by (simp add: toHex_def)
next
  case (Cons b bs)
  have "set (hex_byte b) \<subseteq> set ''0123456789abcdef''"
    using hex_digit_in [of "unat b div 16"] hex_digit_in [of "unat b mod 16"]
    by (simp add: hex_byte_def)
  with Cons show ?case by (simp add: toHex_def)
qed

lemma toHex_not_index: "toHex bs \<noteq> ''_index''"
proof
  assume "toHex bs = ''_index''"
  then have "CHR ''_'' \<in> set (toHex bs)" by simp
  with toHex_chars [of bs] show False by auto
qed

lemma encryptContent_frame:
  "encryptContent E masterKey xs st = (x, st') \<Longrightarrow>
   keySalt st' = keySalt st \<and> indexTag st' = indexTag st \<and> hasErrors st' = hasErrors st \<and>
   dist_dir st' ''_index'' = dist_dir st ''_index''"
proof (induction xs arbitrary: st x st')
  case Nil
  then show ?case by simp
next
  case (Cons el rest)
  obtain y st1 where e: "encryptEntry E masterKey el st = (y, st1)" by force
  note f = encryptEntry_frame [OF e]
  have f1: "keySalt st1 = keySalt st \<and> indexTag st1 = indexTag st \<and> hasErrors st1 = hasErrors st \<and>
   dist_dir st1 ''_index'' = dist_dir st ''_index''"
    using f toHex_not_index by metis
  show ?case
  proof (cases y)
    case (Inl err)
    then have "st' = st1" using Cons.prems e by simp
    then show ?thesis using f1 by simp
  next
    case (Inr el')
    obtain z st2 where r: "encryptContent E masterKey rest st1 = (z, st2)" by force
    have "st' = st2" using Cons.prems e Inr r by (cases z) auto
    then show ?thesis using Cons.IH [OF r] f1 by simp
  qed
qed

lemma encryptContent_ok:
  "encryptContent E masterKey xs st = (Inr ys, st') \<Longrightarrow>
   list_all2 (enriched E) xs ys \<and>
   rng_pos st' = rng_pos st + 56 * length xs \<and>
   map dist ys = map (\<lambda>i. Some (toHex (dist_draw (tape E) (rng_pos st) i))) [0 ..< length xs] \<and>
   (\<forall>y \<in> set ys. \<exists>t. tag y = Some (toBase64 t))"
proof (induction xs arbitrary: st ys st')
  case Nil
  then show ?case by auto
next
  case (Cons el rest)
  obtain y st1 where e: "encryptEntry E masterKey el st = (y, st1)" by force
  obtain z st2 where r: "encryptContent E masterKey rest st1 = (z, st2)" by force
  from Cons.prems e r obtain el1 rest1 where
    y: "y = Inr el1" and z: "z = Inr rest1" and ys: "ys = el1 # rest1" and st': "st' = st2"
    by (cases y; cases z) auto
  from encryptEntry_ok [OF e [unfolded y]] obtain el' ins t where
    p: "content_process E el = Inr (el', ins)" and
    el1: "el1 = el'\<lparr>dist := Some (toHex (map (tape E) [rng_pos st ..< rng_pos st + 12])),
                    tag := Some (toBase64 t)\<rparr>" and
    pos: "rng_pos st1 = rng_pos st + 56"
    by blast
  note ih = Cons.IH [OF r [unfolded z]]
  have a: "enriched E el el1" using p el1 by (simp add: enriched_def)
  have b: "dist el1 = Some (toHex (dist_draw (tape E) (rng_pos st) 0))"
    using el1 by (simp add: dist_draw_def)
  have c: "map dist rest1 = map (\<lambda>i. Some (toHex (dist_draw (tape E) (rng_pos st) (Suc i)))) [0 ..< length rest]"
    using ih pos by (simp add: dist_draw_def add.assoc add.commute add.left_commute)
  have d: "map (\<lambda>i. Some (toHex (dist_draw (tape E) (rng_pos st) i))) [0 ..< length (el # rest)]
     = Some (toHex (dist_draw (tape E) (rng_pos st) 0)) #
       map (\<lambda>i. Some (toHex (dist_draw (tape E) (rng_pos st) (Suc i)))) [0 ..< length rest]"
    by (simp add: map_upt_Suc del: upt_Suc)
  show ?case using ih a b c d el1 pos ys st' by auto
qed

subsection \<open>The scanner walks depth first in listing order\<close>

lemma scan_walk:
  "scanFolder folder n result = Inr out \<Longrightarrow>
     out = result @ map (\<lambda>(p, sz). \<lparr>path = p, size_bytes = sz, dist = None, tag = None,
                           processed = None, display = None\<rparr>) (spec_walk folder n)"
  "scanList folder list result = Inr out \<Longrightarrow>
     out = result @ map (\<lambda>(p, sz). \<lparr>path = p, size_bytes = sz, dist = None, tag = None,
                           processed = None, display = None\<rparr>) (spec_walk folder (Dir list))"
proof (induction folder n result and folder list result arbitrary: out and out
       rule: scanFolder_scanList.induct)
  case (1 folder list result)
  then show ?case by simp
next
  case (2 folder n result)
  then show ?case by simp
next
  case (3 folder e result)
  then show ?case by simp
next
  case (4 folder e result)
  then show ?case by simp
next
  case (5 folder result)
  then show ?case by simp
next
  case (6 folder name n rest result)
  let ?mk = "\<lambda>(p, sz). \<lparr>path = p, size_bytes = sz, dist = None, tag = None,
                           processed = None, display = None\<rparr>"
  let ?el = "folder @ name"
  show ?case
  proof (cases "includePath ?el")
    case False
    then have "scanList folder rest result = Inr out" using "6.prems" by simp
    from "6.IH"(1) [OF refl _ this] False show ?thesis by simp
  next
    case True
    show ?thesis
    proof (cases n)
      case (File sz)
      then have "scanList folder rest
          (result @ [\<lparr>path = ?el, size_bytes = sz, dist = None, tag = None,
                       processed = None, display = None\<rparr>]) = Inr out"
        using "6.prems" True by simp
      from "6.IH"(2) [OF refl _ File this] True File show ?thesis by simp
    next
      case (Dir sub)
      then obtain mid where m: "scanFolder (?el @ ''/'') n result = Inr mid"
        and r: "scanList folder rest mid = Inr out"
        using "6.prems" True by (auto split: sum.splits)
      from "6.IH"(3) [OF refl _ Dir m] True have "mid = result @ map ?mk (spec_walk (?el @ ''/'') n)"
        by simp
      moreover from "6.IH"(4) [OF refl _ Dir _ r] m True have "out = mid @ map ?mk (spec_walk folder (Dir rest))"
        by simp
      ultimately show ?thesis using True Dir by simp
    next
      case (No_stat e)
      then show ?thesis using "6.prems" True by simp
    next
      case (No_readdir e)
      then show ?thesis using "6.prems" True by simp
    qed
  qed
qed

subsection \<open>The stages of a build\<close>

lemma build_success:
  assumes "build E cfg pw st0 = (Inr L, st')"
  shows "\<exists>st3 st4 t.
    scanContent E = Inr (l_scanned L) \<and>
    deriveKey E cfg (pw @ appToken cfg) (map (tape E) [rng_pos st0 ..< rng_pos st0 + 64])
      = Inr (l_masterKey L) \<and>
    encryptContent E (l_masterKey L) (l_scanned L)
      ((cleaned st0)\<lparr>rng_pos := rng_pos st0 + 64,
         keySalt := Some (map (tape E) [rng_pos st0 ..< rng_pos st0 + 64])\<rparr>)
      = (Inr (l_content L), st3) \<and>
    createIndex E (l_masterKey L) (l_content L) st3 = (Resolved t, st4) \<and>
    (st' = st4\<lparr>indexTag := Some (Buffer t)\<rparr> \<or>
     st' = st4\<lparr>indexTag := Some (Buffer t), hasErrors := True\<rparr>)"
proof -
  let ?salt = "map (tape E) [rng_pos st0 ..< rng_pos st0 + 64]"
  let ?st2 = "(cleaned st0)\<lparr>rng_pos := rng_pos st0 + 64, keySalt := Some ?salt\<rparr>"
  note cf = build_needs_clean [OF assms]
  obtain content where sc: "scanContent E = Inr content"
    using assms cf by (cases "scanContent E") (auto simp: build_def Let_def CleanDirectory_def)
  obtain mk where dk: "deriveKey E cfg (pw @ appToken cfg) ?salt = Inr mk"
    using assms sc cf
    by (cases "deriveKey E cfg (pw @ appToken cfg) ?salt")
       (auto simp: build_def Let_def randomBytes_def CleanDirectory_def cleaned_def)
  obtain x st3 where ec: "encryptContent E mk content ?st2 = (x, st3)" by force
  have b: "build E cfg pw st0 =
    (case x of Inl e \<Rightarrow> (Inl e, st3) | Inr content' \<Rightarrow>
      (let (pr, st4) = createIndex E mk content' st3 in
       case await pr of Inl e \<Rightarrow> (Inl e, st4)
       | Inr tagBuf \<Rightarrow>
         (let st5 = st4\<lparr>indexTag := Some (Buffer tagBuf)\<rparr>;
          appParams =
            \<lparr>ap_distDir = distDir cfg,
             ap_authIssuer = ''https://'' @ auth0_domain cfg,
             ap_authClientId = auth0_hereditasClientId cfg,
             ap_idTokenNamespace = ''https://hereditas.app'',
             ap_indexTag = indexTag st5,
             ap_keySalt = keySalt st5,
             ap_kdf = kdf cfg,
             ap_pbkdf2Iterations = pbkdf2_iterations cfg,
             ap_argon2Memory = argon2_memory cfg\<rparr> in
      case webpack E appParams of
        Inl e \<Rightarrow> (Inl e, st5)
      | Inr webpackStats \<Rightarrow>
          (Inr \<lparr>l_masterKey = mk, l_scanned = content, l_content = content'\<rparr>,
           if stats_hasErrors webpackStats then st5\<lparr>hasErrors := True\<rparr> else st5))))"
    using sc dk ec cf
    by (simp add: build_def Let_def randomBytes_def CleanDirectory_def cleaned_def)
  from assms b obtain content' where x: "x = Inr content'" by (cases x) auto
  obtain pr st4 where ci: "createIndex E mk content' st3 = (pr, st4)" by force
  from assms b x ci obtain t where aw: "await pr = Inr t"
    by (cases "await pr") (auto simp: Let_def)
  then have pr: "pr = Resolved t" by (cases pr) auto
  from assms b x ci aw have
    "L = \<lparr>l_masterKey = mk, l_scanned = content, l_content = content'\<rparr> \<and>
     (st' = st4\<lparr>indexTag := Some (Buffer t)\<rparr> \<or>
      st' = st4\<lparr>indexTag := Some (Buffer t), hasErrors := True\<rparr>)"
    by (auto simp: Let_def split: sum.splits if_splits)
  then show ?thesis using sc dk ec x ci pr by auto
qed

lemma createIndex_unfold:
  "createIndex E mk c st =
     (settled (fst (encryptStream E mk [Chunk (json_stringify E c), End] ''_index''
                     (createWriteStream ''_index'' st))),
      snd (encryptStream E mk [Chunk (json_stringify E c), End] ''_index''
             (createWriteStream ''_index'' st)))"
  by (simp add: createIndex_def Let_def split_beta)

lemma createIndex_frame:
  assumes "createIndex E mk c st = (pr, st')"
  shows "keySalt st' = keySalt st \<and> indexTag st' = indexTag st \<and> hasErrors st' = hasErrors st \<and>
         rng_pos st' = rng_pos st + 44 \<and>
         dist_dir st' ''_index'' =
           Some (written (fst (encryptStream E mk [Chunk (json_stringify E c), End] ''_index''
                     (createWriteStream ''_index'' st))))"
proof -
  obtain r st2 where run: "encryptStream E mk [Chunk (json_stringify E c), End] ''_index''
                     (createWriteStream ''_index'' st) = (r, st2)" by force
  have "st' = st2" using assms run by (simp add: createIndex_unfold)
  then show ?thesis using encryptStream_frame [OF run] run
    by (simp add: createWriteStream_def)
qed

lemma createIndex_resolved:
  assumes "createIndex E mk c st = (Resolved t, st')"
  shows "dist_dir st' ''_index'' =
           Some (kw_encrypt E mk (map (tape E) [rng_pos st ..< rng_pos st + 32]) @
                 map (tape E) [rng_pos st + 32 ..< rng_pos st + 32 + 12] @
                 gcm_ciphertext E (map (tape E) [rng_pos st ..< rng_pos st + 32])
                   (map (tape E) [rng_pos st + 32 ..< rng_pos st + 32 + 12])
                   [json_stringify E c])"
    and "t = gcm_tag E (map (tape E) [rng_pos st ..< rng_pos st + 32])
                   (map (tape E) [rng_pos st + 32 ..< rng_pos st + 32 + 12])
                   [json_stringify E c]"
proof -
  obtain r st2 where run: "encryptStream E mk [Chunk (json_stringify E c), End] ''_index''
                     (createWriteStream ''_index'' st) = (r, st2)" by force
  have eq: "st' = st2" "settled r = Resolved t" using assms run by (simp_all add: createIndex_unfold)
  note R = encryptStream_resolved [OF run eq(2)]
  show "dist_dir st' ''_index'' =
           Some (kw_encrypt E mk (map (tape E) [rng_pos st ..< rng_pos st + 32]) @
                 map (tape E) [rng_pos st + 32 ..< rng_pos st + 32 + 12] @
                 gcm_ciphertext E (map (tape E) [rng_pos st ..< rng_pos st + 32])
                   (map (tape E) [rng_pos st + 32 ..< rng_pos st + 32 + 12])
                   [json_stringify E c])"
    using R(1) R(3) eq(1) by (simp add: createWriteStream_def)
  show "t = gcm_tag E (map (tape E) [rng_pos st ..< rng_pos st + 32])
                   (map (tape E) [rng_pos st + 32 ..< rng_pos st + 32 + 12])
                   [json_stringify E c]"
    using R(2) by (simp add: createWriteStream_def)
qed




lemma enriched_complete:
  assumes "list_all2 (enriched E) xs ys" and "y \<in> set ys"
  shows "dist y \<noteq> None \<and> tag y \<noteq> None"
proof -
  from assms(2) obtain i where i: "i < length ys" "ys ! i = y" by (auto simp: in_set_conv_nth)
  with assms(1) have "enriched E (xs ! i) y" by (auto simp: list_all2_conv_all_nth)
  then show ?thesis by (auto simp: enriched_def split: sum.splits prod.splits)
qed

lemma build_clean_fails:
  "clean_fault E = Some (e, removed) \<Longrightarrow>
   build E cfg pw st0 =
     (Inl e, st0\<lparr>dist_dir := (\<lambda>name. if removed name then None else dist_dir st0 name)\<rparr>)"
  by (simp add: build_def Let_def CleanDirectory_def)

lemma build_scan_fails:
  "clean_fault E = None \<Longrightarrow> scanContent E = Inl e \<Longrightarrow>
   build E cfg pw st0 = (Inl e, cleaned st0)"
  by (simp add: build_def Let_def CleanDirectory_def)

lemma build_derive_fails:
  assumes "clean_fault E = None" and "scanContent E = Inr content"
    and "deriveKey E cfg (pw @ appToken cfg) (map (tape E) [rng_pos st0 ..< rng_pos st0 + 64])
           = Inl e"
  shows "build E cfg pw st0 =
           (Inl e, (cleaned st0)\<lparr>rng_pos := rng_pos st0 + 64,
              keySalt := Some (map (tape E) [rng_pos st0 ..< rng_pos st0 + 64])\<rparr>)"
  using assms by (simp add: build_def Let_def randomBytes_def CleanDirectory_def cleaned_fields)

lemma build_content_fails:
  assumes "clean_fault E = None" and "scanContent E = Inr content"
    and "deriveKey E cfg (pw @ appToken cfg) (map (tape E) [rng_pos st0 ..< rng_pos st0 + 64])
           = Inr mk"
    and "encryptContent E mk content
           ((cleaned st0)\<lparr>rng_pos := rng_pos st0 + 64,
              keySalt := Some (map (tape E) [rng_pos st0 ..< rng_pos st0 + 64])\<rparr>)
           = (Inl e, st3)"
  shows "build E cfg pw st0 = (Inl e, st3)"
  using assms by (simp add: build_def Let_def randomBytes_def CleanDirectory_def cleaned_fields)

lemma build_index_stage:
  assumes "clean_fault E = None" and "scanContent E = Inr content"
    and "deriveKey E cfg (pw @ appToken cfg) (map (tape E) [rng_pos st0 ..< rng_pos st0 + 64])
           = Inr mk"
    and "encryptContent E mk content
           ((cleaned st0)\<lparr>rng_pos := rng_pos st0 + 64,
              keySalt := Some (map (tape E) [rng_pos st0 ..< rng_pos st0 + 64])\<rparr>)
           = (Inr content', st3)"
    and "createIndex E mk content' st3 = (pr, st4)"
  shows "dist_dir (snd (build E cfg pw st0)) = dist_dir st4 \<and>
         keySalt (snd (build E cfg pw st0)) = keySalt st4 \<and>
         rng_pos (snd (build E cfg pw st0)) = rng_pos st4 \<and>
         indexTag (snd (build E cfg pw st0)) =
           (case pr of Resolved t \<Rightarrow> Some (Buffer t) | _ \<Rightarrow> indexTag st4)"
proof -
  note defs = build_def Let_def randomBytes_def CleanDirectory_def cleaned_fields
  show ?thesis
  proof (cases pr)
    case Pending
    then show ?thesis using assms by (simp add: defs)
  next
    case (Rejected e)
    then show ?thesis using assms by (simp add: defs)
  next
    case (Resolved t)
    show ?thesis
    proof (cases "webpack E
            \<lparr>ap_distDir = distDir cfg,
             ap_authIssuer = ''https://'' @ auth0_domain cfg,
             ap_authClientId = auth0_hereditasClientId cfg,
             ap_idTokenNamespace = ''https://hereditas.app'',
             ap_indexTag = Some (Buffer t),
             ap_keySalt = keySalt st4,
             ap_kdf = kdf cfg,
             ap_pbkdf2Iterations = pbkdf2_iterations cfg,
             ap_argon2Memory = argon2_memory cfg\<rparr>")
      case (Inl e)
      then show ?thesis using assms Resolved by (simp add: defs)
    next
      case (Inr ws)
      then show ?thesis using assms Resolved by (simp add: defs)
    qed
  qed
qed

lemma build_index_bytes:
  assumes "build E cfg pw st0 = (Inr L, st')"
  shows "list_all2 (enriched E) (l_scanned L) (l_content L) \<and>
         (\<exists>t. indexTag st' = Some (Buffer t) \<and>
           t = gcm_tag E
                 (map (tape E) [rng_pos st0 + 64 + 56 * length (l_scanned L) ..<
                                rng_pos st0 + 64 + 56 * length (l_scanned L) + 32])
                 (map (tape E) [rng_pos st0 + 64 + 56 * length (l_scanned L) + 32 ..<
                                rng_pos st0 + 64 + 56 * length (l_scanned L) + 32 + 12])
                 [json_stringify E (l_content L)]) \<and>
         dist_dir st' ''_index'' =
           Some (kw_encrypt E (l_masterKey L)
                   (map (tape E) [rng_pos st0 + 64 + 56 * length (l_scanned L) ..<
                                  rng_pos st0 + 64 + 56 * length (l_scanned L) + 32]) @
                 map (tape E) [rng_pos st0 + 64 + 56 * length (l_scanned L) + 32 ..<
                               rng_pos st0 + 64 + 56 * length (l_scanned L) + 32 + 12] @
                 gcm_ciphertext E
                   (map (tape E) [rng_pos st0 + 64 + 56 * length (l_scanned L) ..<
                                  rng_pos st0 + 64 + 56 * length (l_scanned L) + 32])
                   (map (tape E) [rng_pos st0 + 64 + 56 * length (l_scanned L) + 32 ..<
                                  rng_pos st0 + 64 + 56 * length (l_scanned L) + 32 + 12])
                   [json_stringify E (l_content L)])"
proof -
  let ?salt = "map (tape E) [rng_pos st0 ..< rng_pos st0 + 64]"
  let ?st2 = "(cleaned st0)\<lparr>rng_pos := rng_pos st0 + 64, keySalt := Some ?salt\<rparr>"
  from build_success [OF assms] obtain st3 st4 t where
    ec: "encryptContent E (l_masterKey L) (l_scanned L) ?st2 = (Inr (l_content L), st3)" and
    ci: "createIndex E (l_masterKey L) (l_content L) st3 = (Resolved t, st4)" and
    st': "st' = st4\<lparr>indexTag := Some (Buffer t)\<rparr> \<or>
          st' = st4\<lparr>indexTag := Some (Buffer t), hasErrors := True\<rparr>"
    by blast
  note ok = encryptContent_ok [OF ec]
  have pos: "rng_pos st3 = rng_pos st0 + 64 + 56 * length (l_scanned L)"
    using ok by (simp add: CleanDirectory_def cleaned_fields)
  have d: "dist_dir st' = dist_dir st4" and it: "indexTag st' = Some (Buffer t)"
    using st' by auto
  show ?thesis
    using ok createIndex_resolved [OF ci] d it unfolding pos by simp
qed

text \<open>
  C3. The list handed to \<^verbatim>\<open>_createIndex\<close> is the list \<^verbatim>\<open>_encryptContent\<close> returned:
  every record of it has \<^verbatim>\<open>dist\<close> and \<^verbatim>\<open>tag\<close> set, and the index file holds the
  encryption of its serialization. Whatever the outcome of a build that could clean the
  output directory, an index file exists after it only if the encryption of the whole
  content succeeded, and it was written from the serialization of that complete list. A
  build whose cleaning fails stops there with that error: it scans nothing and writes no
  file, so that an index file left in the directory is an older one.
\<close>

theorem index_records_complete:
  "(build E cfg passphrase st0 = (Inr L, st') \<longrightarrow>
      (\<forall>f \<in> set (l_content L). dist f \<noteq> None \<and> tag f \<noteq> None) \<and>
      dist_dir st' ''_index'' =
        Some (kw_encrypt E (l_masterKey L)
                (map (tape E) [rng_pos st0 + 64 + 56 * length (l_scanned L) ..<
                               rng_pos st0 + 64 + 56 * length (l_scanned L) + 32]) @
              map (tape E) [rng_pos st0 + 64 + 56 * length (l_scanned L) + 32 ..<
                            rng_pos st0 + 64 + 56 * length (l_scanned L) + 32 + 12] @
              gcm_ciphertext E
                (map (tape E) [rng_pos st0 + 64 + 56 * length (l_scanned L) ..<
                               rng_pos st0 + 64 + 56 * length (l_scanned L) + 32])
                (map (tape E) [rng_pos st0 + 64 + 56 * length (l_scanned L) + 32 ..<
                               rng_pos st0 + 64 + 56 * length (l_scanned L) + 32 + 12])
                [json_stringify E (l_content L)])) \<and>
   (clean_fault E = None \<and>
    build E cfg passphrase st0 = (res, st'') \<and> dist_dir st'' ''_index'' \<noteq> None \<longrightarrow>
      (\<exists>content mk recs st3.
         scanContent E = Inr content \<and>
         encryptContent E mk content
           ((cleaned st0)\<lparr>rng_pos := rng_pos st0 + 64,
              keySalt := Some (map (tape E) [rng_pos st0 ..< rng_pos st0 + 64])\<rparr>)
           = (Inr recs, st3) \<and>
         (\<forall>f \<in> set recs. dist f \<noteq> None \<and> tag f \<noteq> None) \<and>
         dist_dir st'' ''_index'' =
           Some (written (fst (encryptStream E mk [Chunk (json_stringify E recs), End]
                                 ''_index'' (createWriteStream ''_index'' st3)))))) \<and>
   (clean_fault E = Some (e, removed) \<longrightarrow>
      build E cfg passphrase st0 =
        (Inl e,
         st0\<lparr>dist_dir := (\<lambda>name. if removed name then None else dist_dir st0 name)\<rparr>))"
proof (intro conjI impI)
  assume b: "build E cfg passphrase st0 = (Inr L, st')"
  show "\<forall>f \<in> set (l_content L). dist f \<noteq> None \<and> tag f \<noteq> None"
    using build_index_bytes [OF b] enriched_complete by blast
  show "dist_dir st' ''_index'' =
        Some (kw_encrypt E (l_masterKey L)
                (map (tape E) [rng_pos st0 + 64 + 56 * length (l_scanned L) ..<
                               rng_pos st0 + 64 + 56 * length (l_scanned L) + 32]) @
              map (tape E) [rng_pos st0 + 64 + 56 * length (l_scanned L) + 32 ..<
                            rng_pos st0 + 64 + 56 * length (l_scanned L) + 32 + 12] @
              gcm_ciphertext E
                (map (tape E) [rng_pos st0 + 64 + 56 * length (l_scanned L) ..<
                               rng_pos st0 + 64 + 56 * length (l_scanned L) + 32])
                (map (tape E) [rng_pos st0 + 64 + 56 * length (l_scanned L) + 32 ..<
                               rng_pos st0 + 64 + 56 * length (l_scanned L) + 32 + 12])
                [json_stringify E (l_content L)])"
    using build_index_bytes [OF b] by blast
next
  assume a0: "clean_fault E = None \<and>
    build E cfg passphrase st0 = (res, st'') \<and> dist_dir st'' ''_index'' \<noteq> None"
  then have cf: "clean_fault E = None"
    and a: "build E cfg passphrase st0 = (res, st'') \<and> dist_dir st'' ''_index'' \<noteq> None"
    by simp_all
  let ?salt = "map (tape E) [rng_pos st0 ..< rng_pos st0 + 64]"
  let ?st2 = "(cleaned st0)\<lparr>rng_pos := rng_pos st0 + 64, keySalt := Some ?salt\<rparr>"
  have st'': "st'' = snd (build E cfg passphrase st0)" using a by simp
  have empty: "dist_dir ?st2 ''_index'' = None" by (simp add: CleanDirectory_def cleaned_fields)
  show "\<exists>content mk recs st3.
         scanContent E = Inr content \<and>
         encryptContent E mk content ?st2 = (Inr recs, st3) \<and>
         (\<forall>f \<in> set recs. dist f \<noteq> None \<and> tag f \<noteq> None) \<and>
         dist_dir st'' ''_index'' =
           Some (written (fst (encryptStream E mk [Chunk (json_stringify E recs), End]
                                 ''_index'' (createWriteStream ''_index'' st3))))"
  proof (cases "scanContent E")
    case (Inl e)
    have "st'' = cleaned st0"
      using a build_scan_fails [OF cf Inl, of cfg passphrase st0] by simp
    then have "dist_dir st'' ''_index'' = None" by (simp add: CleanDirectory_def cleaned_fields)
    then show ?thesis using a by simp
  next
    case (Inr content)
    show ?thesis
    proof (cases "deriveKey E cfg (passphrase @ appToken cfg) ?salt")
      case (Inl e)
      have "st'' = ?st2" using a build_derive_fails [OF cf Inr Inl] by simp
      then have "dist_dir st'' ''_index'' = None" using empty by simp
      then show ?thesis using a by simp
    next
      case dk: (Inr mk)
      obtain x st3 where ec: "encryptContent E mk content ?st2 = (x, st3)" by force
      show ?thesis
      proof (cases x)
        case (Inl e)
        have "st'' = st3" using a build_content_fails [OF cf Inr dk ec [unfolded Inl]] by simp
        then have "dist_dir st'' ''_index'' = None"
          using encryptContent_frame [OF ec] empty by simp
        then show ?thesis using a by simp
      next
        case x: (Inr recs)
        obtain pr st4 where ci: "createIndex E mk recs st3 = (pr, st4)" by force
        have "dist_dir st'' ''_index'' = dist_dir st4 ''_index''"
          using build_index_stage [OF cf Inr dk ec [unfolded x] ci] st'' by simp
        then have "dist_dir st'' ''_index'' =
           Some (written (fst (encryptStream E mk [Chunk (json_stringify E recs), End]
                                 ''_index'' (createWriteStream ''_index'' st3))))"
          using createIndex_frame [OF ci] by simp
        moreover have "\<forall>f \<in> set recs. dist f \<noteq> None \<and> tag f \<noteq> None"
          using encryptContent_ok [OF ec [unfolded x]] enriched_complete by blast
        ultimately show ?thesis using Inr ec x by blast
      qed
    qed
  qed
next
  assume "clean_fault E = Some (e, removed)"
  then show "build E cfg passphrase st0 =
        (Inl e,
         st0\<lparr>dist_dir := (\<lambda>name. if removed name then None else dist_dir st0 name)\<rparr>)"
    by (rule build_clean_fails)
qed


theorem index_records_complete_witness:
  "\<not> isl (fst (build sample_env sample_config ''pw'' (new_builder Map.empty))) \<and>
   list_all (\<lambda>f. dist f \<noteq> None \<and> tag f \<noteq> None)
     (l_content (projr (fst (build sample_env sample_config ''pw'' (new_builder Map.empty))))) \<and>
   clean_fault sample_env = None \<and>
   dist_dir (snd (build sample_env sample_config ''pw'' (new_builder Map.empty))) ''_index''
     \<noteq> None \<and>
   clean_fault failed_clean_env = Some (Io_error ''EACCES'', (\<lambda>name. False)) \<and>
   fst (build failed_clean_env sample_config ''pw'' (new_builder [''_index'' \<mapsto> [9]]))
     = Inl (Io_error ''EACCES'') \<and>
   dist_dir (snd (build failed_clean_env sample_config ''pw''
                    (new_builder [''_index'' \<mapsto> [9]]))) ''_index'' = Some [9]"
proof -
  obtain x st' where b: "build sample_env sample_config ''pw'' (new_builder Map.empty) = (x, st')"
    by force
  have ok: "\<not> isl (fst (build sample_env sample_config ''pw'' (new_builder Map.empty)))"
    by code_simp
  then obtain L where x: "x = Inr L" using b by (cases x) auto
  have cf: "clean_fault sample_env = None" by (simp add: sample_env_def)
  have ff: "clean_fault failed_clean_env = Some (Io_error ''EACCES'', (\<lambda>name. False))"
    by (simp add: failed_clean_env_def)
  note T = index_records_complete
    [where E = sample_env and cfg = sample_config and passphrase = "''pw''"
       and ?st0.0 = "new_builder Map.empty" and L = L and st' = st' and res = x and st'' = st']
  note T2 = index_records_complete
    [where E = failed_clean_env and cfg = sample_config and passphrase = "''pw''"
       and ?st0.0 = "new_builder [''_index'' \<mapsto> [9]]"
       and e = "Io_error ''EACCES''" and removed = "\<lambda>name. False"]
  have 1: "\<forall>f \<in> set (l_content L). dist f \<noteq> None \<and> tag f \<noteq> None"
    using T b x by blast
  have 2: "dist_dir st' ''_index'' \<noteq> None"
    using T b x by simp
  have "\<exists>content mk recs st3.
         scanContent sample_env = Inr content \<and>
         encryptContent sample_env mk content
           ((cleaned (new_builder Map.empty))\<lparr>rng_pos := rng_pos (new_builder Map.empty) + 64,
              keySalt := Some (map (tape sample_env)
                 [rng_pos (new_builder Map.empty) ..< rng_pos (new_builder Map.empty) + 64])\<rparr>)
           = (Inr recs, st3) \<and>
         (\<forall>f \<in> set recs. dist f \<noteq> None \<and> tag f \<noteq> None) \<and>
         dist_dir st' ''_index'' =
           Some (written (fst (encryptStream sample_env mk [Chunk (json_stringify sample_env recs), End]
                                 ''_index'' (createWriteStream ''_index'' st3))))"
    using T b 2 cf by blast
  have 3: "build failed_clean_env sample_config ''pw'' (new_builder [''_index'' \<mapsto> [9]]) =
        (Inl (Io_error ''EACCES''),
         (new_builder [''_index'' \<mapsto> [9]])\<lparr>dist_dir := (\<lambda>name. if False then None
            else dist_dir (new_builder [''_index'' \<mapsto> [9]]) name)\<rparr>)"
    using T2 ff by blast
  have 4: "fst (build failed_clean_env sample_config ''pw'' (new_builder [''_index'' \<mapsto> [9]]))
     = Inl (Io_error ''EACCES'')"
    by (simp only: 3 fst_conv)
  have "dist_dir (snd (build failed_clean_env sample_config ''pw''
                    (new_builder [''_index'' \<mapsto> [9]]))) ''_index''
        = dist_dir (new_builder [''_index'' \<mapsto> [9]]) ''_index''"
    by (simp only: 3 snd_conv) simp
  then have 5: "dist_dir (snd (build failed_clean_env sample_config ''pw''
                    (new_builder [''_index'' \<mapsto> [9]]))) ''_index'' = Some [9]"
    by (simp add: new_builder_def)
  from ok 1 2 b x cf ff 4 5 show ?thesis by (simp add: list_all_iff)
qed

text \<open>
  C4. The records of the index are in the order of the scan. The scanner returns the
  regular files in the order of a depth-first walk in listing order; the encryption stage
  returns one record for each scanned record, at the same position, obtained from it by
  pre-processing and by setting \<^verbatim>\<open>dist\<close> and \<^verbatim>\<open>tag\<close>; and that list is what the index
  serializes. Where pre-processing keeps the path of a record, the paths of the index are
  the paths of the walk, in order.
\<close>

theorem index_order_is_scan_order:
  assumes "build E cfg passphrase st0 = (Inr L, st')"
  shows "map (\<lambda>f. (path f, size_bytes f)) (l_scanned L) = spec_walk [] (content_root E) \<and>
         length (l_content L) = length (l_scanned L) \<and>
         list_all2 (enriched E) (l_scanned L) (l_content L) \<and>
         ((\<forall>f el ins. content_process E f = Inr (el, ins) \<longrightarrow> path el = path f) \<longrightarrow>
            map path (l_content L) = map fst (spec_walk [] (content_root E))) \<and>
         (\<exists>fileKey fileIV.
            dist_dir st' ''_index'' =
              Some (kw_encrypt E (l_masterKey L) fileKey @ fileIV @
                    gcm_ciphertext E fileKey fileIV [json_stringify E (l_content L)]))"
proof -
  from build_success [OF assms] have sc: "scanContent E = Inr (l_scanned L)" by blast
  let ?mk = "\<lambda>(p, sz). \<lparr>path = p, size_bytes = sz, dist = None, tag = None,
                           processed = None, display = None\<rparr>"
  have "l_scanned L = map ?mk (spec_walk [] (content_root E))"
    using scan_walk(1) [of "[]" "content_root E" "[]" "l_scanned L"] sc
    by (simp add: scanContent_def)
  then have 1: "map (\<lambda>f. (path f, size_bytes f)) (l_scanned L) = spec_walk [] (content_root E)"
    by (simp add: comp_def split_beta)
  note B = build_index_bytes [OF assms]
  have 3: "list_all2 (enriched E) (l_scanned L) (l_content L)" using B by blast
  then have 2: "length (l_content L) = length (l_scanned L)"
    by (simp add: list_all2_lengthD)
  have 4: "(\<forall>f el ins. content_process E f = Inr (el, ins) \<longrightarrow> path el = path f) \<longrightarrow>
            map path (l_content L) = map fst (spec_walk [] (content_root E))"
  proof
    assume keep: "\<forall>f el ins. content_process E f = Inr (el, ins) \<longrightarrow> path el = path f"
    have "map path (l_content L) = map path (l_scanned L)"
    proof (rule nth_equalityI)
      show "length (map path (l_content L)) = length (map path (l_scanned L))" using 2 by simp
    next
      fix i assume "i < length (map path (l_content L))"
      then have i: "i < length (l_content L)" by simp
      then have e: "enriched E (l_scanned L ! i) (l_content L ! i)"
        using 3 by (simp add: list_all2_conv_all_nth)
      then obtain el ins where p: "content_process E (l_scanned L ! i) = Inr (el, ins)"
        and y: "l_content L ! i = el\<lparr>dist := dist (l_content L ! i), tag := tag (l_content L ! i)\<rparr>"
        by (auto simp: enriched_def split: sum.splits prod.splits)
      have "path (l_content L ! i) = path el" by (subst y) simp
      also have "\<dots> = path (l_scanned L ! i)" using keep p by blast
      finally show "map path (l_content L) ! i = map path (l_scanned L) ! i"
        using i 2 by simp
    qed
    also have "\<dots> = map fst (spec_walk [] (content_root E))"
      using 1 [symmetric] by (simp add: comp_def)
    finally show "map path (l_content L) = map fst (spec_walk [] (content_root E))" .
  qed
  have 5: "\<exists>fileKey fileIV.
            dist_dir st' ''_index'' =
              Some (kw_encrypt E (l_masterKey L) fileKey @ fileIV @
                    gcm_ciphertext E fileKey fileIV [json_stringify E (l_content L)])"
    using B by blast
  from 1 2 3 4 5 show ?thesis by blast
qed

theorem index_order_is_scan_order_witness:
  "\<not> isl (fst (build sample_env sample_config ''pw'' (new_builder Map.empty))) \<and>
   spec_walk [] (content_root sample_env) = [(''a.txt'', 5), (''sub/b.txt'', 3)] \<and>
   map path (l_content (projr (fst (build sample_env sample_config ''pw''
                                      (new_builder Map.empty)))))
     = [''a.txt'', ''sub/b.txt'']"
proof -
  obtain x st' where b: "build sample_env sample_config ''pw'' (new_builder Map.empty) = (x, st')"
    by force
  have ok: "\<not> isl (fst (build sample_env sample_config ''pw'' (new_builder Map.empty)))"
    by code_simp
  then obtain L where x: "x = Inr L" using b by (cases x) auto
  have keep: "\<forall>f el ins. content_process sample_env f = Inr (el, ins) \<longrightarrow> path el = path f"
    by (auto simp: sample_env_def)
  have w: "spec_walk [] (content_root sample_env) = [(''a.txt'', 5), (''sub/b.txt'', 3)]"
    by code_simp
  from index_order_is_scan_order [OF b [unfolded x]] keep
  have "map path (l_content L) = map fst (spec_walk [] (content_root sample_env))"
    by blast
  then have "map path (l_content L) = [''a.txt'', ''sub/b.txt'']" using w by simp
  with ok w b x show ?thesis by simp
qed

text \<open>
  C5. After a completed build, \<^verbatim>\<open>indexTag\<close> holds the authentication tag of the encrypted
  index as the \<^verbatim>\<open>Buffer\<close> that \<^verbatim>\<open>cipher.getAuthTag()\<close> returned: it is not encoded, and
  it is no string. The tags of the records are base64 strings.
\<close>

theorem indexTag_is_tag_buffer:
  assumes "build E cfg passphrase st0 = (Inr L, st')"
  shows "indexTag st' =
           Some (Buffer (gcm_tag E
                 (map (tape E) [rng_pos st0 + 64 + 56 * length (l_scanned L) ..<
                                rng_pos st0 + 64 + 56 * length (l_scanned L) + 32])
                 (map (tape E) [rng_pos st0 + 64 + 56 * length (l_scanned L) + 32 ..<
                                rng_pos st0 + 64 + 56 * length (l_scanned L) + 32 + 12])
                 [json_stringify E (l_content L)])) \<and>
         indexTag st' \<noteq> Some (String v) \<and>
         (\<forall>f \<in> set (l_content L). \<exists>t. tag f = Some (toBase64 t))"
proof -
  let ?salt = "map (tape E) [rng_pos st0 ..< rng_pos st0 + 64]"
  let ?st2 = "(cleaned st0)\<lparr>rng_pos := rng_pos st0 + 64, keySalt := Some ?salt\<rparr>"
  from build_success [OF assms] obtain st3 where
    ec: "encryptContent E (l_masterKey L) (l_scanned L) ?st2 = (Inr (l_content L), st3)"
    by blast
  have 3: "\<forall>f \<in> set (l_content L). \<exists>t. tag f = Some (toBase64 t)"
    using encryptContent_ok [OF ec] by blast
  from build_index_bytes [OF assms] have 1: "indexTag st' =
           Some (Buffer (gcm_tag E
                 (map (tape E) [rng_pos st0 + 64 + 56 * length (l_scanned L) ..<
                                rng_pos st0 + 64 + 56 * length (l_scanned L) + 32])
                 (map (tape E) [rng_pos st0 + 64 + 56 * length (l_scanned L) + 32 ..<
                                rng_pos st0 + 64 + 56 * length (l_scanned L) + 32 + 12])
                 [json_stringify E (l_content L)]))"
    by blast
  then have 2: "indexTag st' \<noteq> Some (String v)" by simp
  from 1 2 3 show ?thesis by blast
qed

theorem indexTag_is_tag_buffer_witness:
  "\<not> isl (fst (build sample_env sample_config ''pw'' (new_builder Map.empty))) \<and>
   indexTag (snd (build sample_env sample_config ''pw'' (new_builder Map.empty)))
     \<noteq> Some (String ''AgcH'') \<and>
   list_all (\<lambda>f. \<exists>t. tag f = Some (toBase64 t))
     (l_content (projr (fst (build sample_env sample_config ''pw'' (new_builder Map.empty)))))"
proof -
  obtain x st' where b: "build sample_env sample_config ''pw'' (new_builder Map.empty) = (x, st')"
    by force
  have ok: "\<not> isl (fst (build sample_env sample_config ''pw'' (new_builder Map.empty)))"
    by code_simp
  then obtain L where x: "x = Inr L" using b by (cases x) auto
  note T = indexTag_is_tag_buffer [OF b [unfolded x], of "''AgcH''"]
  from T have 1: "indexTag st' \<noteq> Some (String ''AgcH'')" by blast
  from T have 2: "\<forall>f \<in> set (l_content L). \<exists>t. tag f = Some (toBase64 t)" by blast
  from ok 1 2 b x show ?thesis by (simp add: list_all_iff)
qed

theorem indexTag_base64_counterexample:
  "\<not> isl (fst (build sample_env sample_config ''pw'' (new_builder Map.empty))) \<and>
   indexTag (snd (build sample_env sample_config ''pw'' (new_builder Map.empty)))
     = Some (Buffer [2, 7, 7]) \<and>
   toBase64 [2, 7, 7] = ''AgcH'' \<and>
   indexTag (snd (build sample_env sample_config ''pw'' (new_builder Map.empty)))
     \<noteq> Some (String (toBase64 [2, 7, 7])) \<and>
   map tag (l_content (projr (fst (build sample_env sample_config ''pw''
                                     (new_builder Map.empty)))))
     = [Some ''BQcH'', Some ''AwcH'']"
  by code_simp

lemma hex_digit_inj:
  assumes "i < 16" and "j < 16" and "hex_digit i = hex_digit j"
  shows "i = j"
proof -
  have d: "distinct ''0123456789abcdef''" by simp
  have "''0123456789abcdef'' ! i = ''0123456789abcdef'' ! j"
    using assms by (simp add: hex_digit_def)
  moreover have "i < length ''0123456789abcdef''" "j < length ''0123456789abcdef''"
    using assms by simp_all
  ultimately show ?thesis using d nth_eq_iff_index_eq by blast
qed

lemma hex_byte_inj:
  assumes "hex_byte a = hex_byte b"
  shows "a = b"
proof -
  have la: "unat a < 256" using unsigned_less [of a, where ?'a = nat] by simp
  have lb: "unat b < 256" using unsigned_less [of b, where ?'a = nat] by simp
  have "hex_digit (unat a div 16) = hex_digit (unat b div 16)"
    and "hex_digit (unat a mod 16) = hex_digit (unat b mod 16)"
    using assms by (simp_all add: hex_byte_def)
  then have "unat a div 16 = unat b div 16" and "unat a mod 16 = unat b mod 16"
    using la lb by (auto intro!: hex_digit_inj)
  then have "unat a = unat b" by (metis div_mult_mod_eq)
  then show ?thesis by (simp add: word_unat_eq_iff)
qed

lemma toHex_inj: "toHex xs = toHex ys \<Longrightarrow> xs = ys"
proof (induction xs arbitrary: ys)
  case Nil
  then show ?case by (cases ys) (simp_all add: toHex_def hex_byte_def)
next
  case (Cons x xs)
  then obtain y ys' where ys: "ys = y # ys'"
    by (cases ys) (simp_all add: toHex_def hex_byte_def)
  from Cons.prems ys have "hex_byte x @ toHex xs = hex_byte y @ toHex ys'"
    by (simp add: toHex_def)
  moreover have "length (hex_byte x) = length (hex_byte y)" by (simp add: hex_byte_def)
  ultimately have "hex_byte x = hex_byte y" and "toHex xs = toHex ys'" by simp_all
  then show ?case using Cons.IH hex_byte_inj ys by blast
qed

text \<open>
  C6. The name of the \<open>i\<close>-th file is the hexadecimal form of the \<open>i\<close>-th draw of twelve
  random bytes, and nothing compares it with the names already given: the names of a
  build are pairwise distinct exactly when these draws are. No name is that of the index.
\<close>

theorem dist_names_follow_draws:
  assumes "build E cfg passphrase st0 = (Inr L, st')"
  shows "map dist (l_content L) =
           map (\<lambda>i. Some (toHex (dist_draw (tape E) (rng_pos st0 + 64) i)))
             [0 ..< length (l_content L)] \<and>
         distinct (map dist (l_content L)) =
           distinct (map (dist_draw (tape E) (rng_pos st0 + 64)) [0 ..< length (l_content L)]) \<and>
         (\<forall>f \<in> set (l_content L). dist f \<noteq> Some ''_index'')"
proof -
  let ?salt = "map (tape E) [rng_pos st0 ..< rng_pos st0 + 64]"
  let ?st2 = "(cleaned st0)\<lparr>rng_pos := rng_pos st0 + 64, keySalt := Some ?salt\<rparr>"
  let ?n = "length (l_content L)"
  let ?draw = "dist_draw (tape E) (rng_pos st0 + 64)"
  from build_success [OF assms] obtain st3 where
    ec: "encryptContent E (l_masterKey L) (l_scanned L) ?st2 = (Inr (l_content L), st3)"
    by blast
  note ok = encryptContent_ok [OF ec]
  have len: "length (l_scanned L) = ?n" using ok list_all2_lengthD by blast
  have 1: "map dist (l_content L) = map (\<lambda>i. Some (toHex (?draw i))) [0 ..< ?n]"
    using ok len by (simp add: CleanDirectory_def cleaned_fields)
  have "map (\<lambda>i. Some (toHex (?draw i))) [0 ..< ?n] = map (\<lambda>d. Some (toHex d)) (map ?draw [0 ..< ?n])"
    by simp
  moreover have "inj (\<lambda>d. Some (toHex d))"
    by (rule injI) (simp add: toHex_inj)
  ultimately have 2: "distinct (map dist (l_content L)) = distinct (map ?draw [0 ..< ?n])"
    using 1 by (metis distinct_map inj_on_subset subset_UNIV)
  have 3: "\<forall>f \<in> set (l_content L). dist f \<noteq> Some ''_index''"
  proof
    fix f assume "f \<in> set (l_content L)"
    then have "dist f \<in> set (map dist (l_content L))" by simp
    then obtain i where "dist f = Some (toHex (?draw i))" unfolding 1 by auto
    then show "dist f \<noteq> Some ''_index''" using toHex_not_index by simp
  qed
  from 1 2 3 show ?thesis by blast
qed

theorem dist_names_follow_draws_witness:
  "\<not> isl (fst (build sample_env sample_config ''pw'' (new_builder Map.empty))) \<and>
   map dist (l_content (projr (fst (build sample_env sample_config ''pw''
                                      (new_builder Map.empty)))))
     = [Some ''404142434445464748494a4b'', Some ''78797a7b7c7d7e7f80818283''] \<and>
   distinct (map dist (l_content (projr (fst (build sample_env sample_config ''pw''
                                                (new_builder Map.empty))))))"
proof -
  obtain x st' where b: "build sample_env sample_config ''pw'' (new_builder Map.empty) = (x, st')"
    by force
  have ok: "\<not> isl (fst (build sample_env sample_config ''pw'' (new_builder Map.empty)))"
    by code_simp
  then obtain L where x: "x = Inr L" using b by (cases x) auto
  have n: "length (l_content (projr (fst (build sample_env sample_config ''pw''
                                      (new_builder Map.empty))))) = 2"
    by code_simp
  then have n': "length (l_content L) = 2" using b x by simp
  have h: "map (\<lambda>i. Some (toHex (dist_draw (tape sample_env) (0 + 64) i))) [0 ..< 2]
           = [Some ''404142434445464748494a4b'', Some ''78797a7b7c7d7e7f80818283'']"
    by code_simp
  from dist_names_follow_draws [OF b [unfolded x]]
  have "map dist (l_content L) =
          map (\<lambda>i. Some (toHex (dist_draw (tape sample_env)
                 (rng_pos (new_builder Map.empty) + 64) i))) [0 ..< length (l_content L)]"
    by blast
  then have "map dist (l_content L)
     = [Some ''404142434445464748494a4b'', Some ''78797a7b7c7d7e7f80818283'']"
    using h n' by (simp add: new_builder_def)
  with ok b x show ?thesis by simp
qed

theorem dist_collision_counterexample:
  "\<not> isl (fst (build zero_tape_env sample_config ''pw'' (new_builder Map.empty))) \<and>
   map path (l_content (projr (fst (build zero_tape_env sample_config ''pw''
                                      (new_builder Map.empty)))))
     = [''a.txt'', ''sub/b.txt''] \<and>
   map dist (l_content (projr (fst (build zero_tape_env sample_config ''pw''
                                      (new_builder Map.empty)))))
     = [Some ''000000000000000000000000'', Some ''000000000000000000000000'']"
  by code_simp

text \<open>
  C7. With a selector other than \<^verbatim>\<open>pbkdf2\<close> and \<^verbatim>\<open>argon2\<close> the build fails, and
  writes nothing to the output directory. When the cleaning of the output directory
  fails, the build stops there with that error. Otherwise the directory is emptied first;
  when the scan then succeeds, the build fails with the error of \<^verbatim>\<open>_deriveKey\<close>, raised
  in the fourth step: by then the content has been scanned and the salt drawn and stored,
  but no key has been derived and no file key drawn.
\<close>

theorem invalid_kdf_fails_in_derive_step:
  assumes "kdf cfg \<noteq> ''pbkdf2''" and "kdf cfg \<noteq> ''argon2''"
  shows "deriveKey E cfg secret s = Inl Invalid_kdf \<and>
         (clean_fault E = None \<and> scanContent E = Inr content \<longrightarrow>
            build E cfg passphrase st0 =
              (Inl Invalid_kdf,
               (cleaned st0)\<lparr>rng_pos := rng_pos st0 + 64,
                  keySalt := Some (fst (randomBytes (tape E) 64 (rng_pos st0)))\<rparr>)) \<and>
         (clean_fault E = None \<and> scanContent E = Inl e \<longrightarrow>
            build E cfg passphrase st0 = (Inl e, cleaned st0)) \<and>
         (clean_fault E = Some (e', removed) \<longrightarrow>
            build E cfg passphrase st0 =
              (Inl e',
               st0\<lparr>dist_dir := (\<lambda>name. if removed name then None else dist_dir st0 name)\<rparr>)) \<and>
         isl (fst (build E cfg passphrase st0)) \<and>
         (clean_fault E = None \<longrightarrow> dist_dir (snd (build E cfg passphrase st0)) = Map.empty) \<and>
         (dist_dir (snd (build E cfg passphrase st0)) name = None \<or>
          dist_dir (snd (build E cfg passphrase st0)) name = dist_dir st0 name) \<and>
         indexTag (snd (build E cfg passphrase st0)) = indexTag st0"
proof -
  have 1: "\<And>secret s. deriveKey E cfg secret s = Inl Invalid_kdf"
    using assms by (simp add: deriveKey_def)
  have 2: "clean_fault E = None \<and> scanContent E = Inr content \<longrightarrow>
            build E cfg passphrase st0 =
              (Inl Invalid_kdf,
               (cleaned st0)\<lparr>rng_pos := rng_pos st0 + 64,
                  keySalt := Some (fst (randomBytes (tape E) 64 (rng_pos st0)))\<rparr>)"
    using build_derive_fails [OF _ _ 1] by (simp add: randomBytes_def)
  have 3: "clean_fault E = None \<and> scanContent E = Inl e \<longrightarrow>
            build E cfg passphrase st0 = (Inl e, cleaned st0)"
    using build_scan_fails by blast
  have 4: "clean_fault E = Some (e', removed) \<longrightarrow>
            build E cfg passphrase st0 =
              (Inl e',
               st0\<lparr>dist_dir := (\<lambda>name. if removed name then None else dist_dir st0 name)\<rparr>)"
    using build_clean_fails by blast
  have 5: "isl (fst (build E cfg passphrase st0)) \<and>
         (clean_fault E = None \<longrightarrow> dist_dir (snd (build E cfg passphrase st0)) = Map.empty) \<and>
         (dist_dir (snd (build E cfg passphrase st0)) name = None \<or>
          dist_dir (snd (build E cfg passphrase st0)) name = dist_dir st0 name) \<and>
         indexTag (snd (build E cfg passphrase st0)) = indexTag st0"
  proof (cases "clean_fault E")
    case (Some f)
    obtain e1 rm where f: "f = (e1, rm)" by (cases f)
    show ?thesis using build_clean_fails [of E e1 rm cfg passphrase st0] Some f by simp
  next
    case None
    show ?thesis
    proof (cases "scanContent E")
      case (Inl e1)
      then show ?thesis using build_scan_fails [OF None Inl, of cfg passphrase st0] None
        by (simp add: cleaned_fields)
    next
      case (Inr c)
      then show ?thesis using build_derive_fails [OF None Inr 1, of passphrase st0] None
        by (simp add: cleaned_fields)
    qed
  qed
  from 1 2 3 4 5 show ?thesis by blast
qed

theorem invalid_kdf_fails_in_derive_step_witness:
  "kdf (sample_config\<lparr>kdf := ''md5''\<rparr>) \<noteq> ''pbkdf2'' \<and>
   kdf (sample_config\<lparr>kdf := ''md5''\<rparr>) \<noteq> ''argon2'' \<and>
   clean_fault sample_env = None \<and>
   isl (fst (build sample_env (sample_config\<lparr>kdf := ''md5''\<rparr>) ''pw''
               (new_builder [''old'' \<mapsto> [1]]))) \<and>
   dist_dir (snd (build sample_env (sample_config\<lparr>kdf := ''md5''\<rparr>) ''pw''
                    (new_builder [''old'' \<mapsto> [1]]))) = Map.empty \<and>
   clean_fault failed_clean_env = Some (Io_error ''EACCES'', (\<lambda>name. False)) \<and>
   fst (build failed_clean_env (sample_config\<lparr>kdf := ''md5''\<rparr>) ''pw''
          (new_builder [''old'' \<mapsto> [1]])) = Inl (Io_error ''EACCES'')"
proof -
  have h1: "kdf (sample_config\<lparr>kdf := ''md5''\<rparr>) \<noteq> ''pbkdf2''" by simp
  have h2: "kdf (sample_config\<lparr>kdf := ''md5''\<rparr>) \<noteq> ''argon2''" by simp
  have cf: "clean_fault sample_env = None" by (simp add: sample_env_def)
  have ff: "clean_fault failed_clean_env = Some (Io_error ''EACCES'', (\<lambda>name. False))"
    by (simp add: failed_clean_env_def)
  note T = invalid_kdf_fails_in_derive_step
    [OF h1 h2, where E = sample_env and passphrase = "''pw''"
       and ?st0.0 = "new_builder [''old'' \<mapsto> [1]]"]
  note T2 = invalid_kdf_fails_in_derive_step
    [OF h1 h2, where E = failed_clean_env and passphrase = "''pw''"
       and ?st0.0 = "new_builder [''old'' \<mapsto> [1]]"
       and e' = "Io_error ''EACCES''" and removed = "\<lambda>name. False"]
  have a: "isl (fst (build sample_env (sample_config\<lparr>kdf := ''md5''\<rparr>) ''pw''
               (new_builder [''old'' \<mapsto> [1]])))"
    using T by blast
  have b: "dist_dir (snd (build sample_env (sample_config\<lparr>kdf := ''md5''\<rparr>) ''pw''
                    (new_builder [''old'' \<mapsto> [1]]))) = Map.empty"
    using T cf by blast
  have "build failed_clean_env (sample_config\<lparr>kdf := ''md5''\<rparr>) ''pw''
          (new_builder [''old'' \<mapsto> [1]]) =
        (Inl (Io_error ''EACCES''),
         (new_builder [''old'' \<mapsto> [1]])\<lparr>dist_dir := (\<lambda>name. if False then None
            else dist_dir (new_builder [''old'' \<mapsto> [1]]) name)\<rparr>)"
    using T2 ff by blast
  then have c: "fst (build failed_clean_env (sample_config\<lparr>kdf := ''md5''\<rparr>) ''pw''
          (new_builder [''old'' \<mapsto> [1]])) = Inl (Io_error ''EACCES'')"
    by simp
  from h1 h2 cf a b ff c show ?thesis by blast
qed

theorem invalid_kdf_counterexample:
  "dist_dir (new_builder [''old'' \<mapsto> [1]]) ''old'' = Some [1] \<and>
   fst (build sample_env (sample_config\<lparr>kdf := ''md5''\<rparr>) ''pw''
          (new_builder [''old'' \<mapsto> [1]])) = Inl Invalid_kdf \<and>
   dist_dir (snd (build sample_env (sample_config\<lparr>kdf := ''md5''\<rparr>) ''pw''
                    (new_builder [''old'' \<mapsto> [1]]))) ''old'' = None \<and>
   rng_pos (snd (build sample_env (sample_config\<lparr>kdf := ''md5''\<rparr>) ''pw''
                   (new_builder [''old'' \<mapsto> [1]]))) = 64 \<and>
   keySalt (snd (build sample_env (sample_config\<lparr>kdf := ''md5''\<rparr>) ''pw''
                   (new_builder [''old'' \<mapsto> [1]]))) = Some (map of_nat [0 ..< 64])"
  by code_simp

subsection \<open>The content list in the store\<close>

lemma those_map_Some: "those (map Some ys) = Some ys"
  by (induction ys) simp_all

lemma upt_alloc: "[n ..< n + Suc k] = n # [Suc n ..< Suc n + k]"
proof -
  have "[n ..< n + Suc k] = n # [Suc n ..< n + Suc k]" by (rule upt_conv_Cons) simp
  moreover have "n + Suc k = Suc n + k" by simp
  ultimately show ?thesis by (simp only:)
qed

lemma new_objects_props:
  "new_objects h vs = (rs, h1) \<Longrightarrow>
   rs = [next_ref h ..< next_ref h + length vs] \<and>
   next_ref h1 = next_ref h + length vs \<and>
   arrays h1 = arrays h \<and>
   (\<forall>r. r < next_ref h \<longrightarrow> objs h1 r = objs h r) \<and>
   map (objs h1) rs = map Some vs"
proof (induction vs arbitrary: h rs h1)
  case Nil
  then show ?case by simp
next
  case (Cons v vs)
  let ?h0 = "h\<lparr>objs := (objs h)(next_ref h \<mapsto> v), next_ref := Suc (next_ref h)\<rparr>"
  obtain rs0 h2 where r: "new_objects ?h0 vs = (rs0, h2)" by force
  from Cons.prems r have rs: "rs = next_ref h # rs0" and h1: "h1 = h2"
    by (simp_all add: new_object_def)
  note ih = Cons.IH [OF r]
  have "rs0 = [next_ref ?h0 ..< next_ref ?h0 + length vs]" using ih by blast
  then have rs0: "rs0 = [Suc (next_ref h) ..< Suc (next_ref h) + length vs]"
    by (simp del: upt_Suc)
  have a: "rs = [next_ref h ..< next_ref h + length (v # vs)]"
    using rs rs0 upt_alloc [of "next_ref h" "length vs"] by (simp del: upt_Suc)
  have o0: "\<forall>r. r < next_ref ?h0 \<longrightarrow> objs h2 r = objs ?h0 r" using ih by blast
  have b: "objs h1 (next_ref h) = Some v" using o0 h1 by simp
  have c: "\<forall>r. r < next_ref h \<longrightarrow> objs h1 r = objs h r" using o0 h1 by simp
  have m0: "map (objs h2) rs0 = map Some vs" using ih by blast
  have d: "map (objs h1) rs = map Some (v # vs)" using m0 rs h1 b by simp
  have n0: "next_ref h2 = next_ref ?h0 + length vs" using ih by blast
  have e: "next_ref h1 = next_ref h + length (v # vs)" using n0 h1 by simp
  have a0: "arrays h2 = arrays ?h0" using ih by blast
  have f: "arrays h1 = arrays h" using a0 h1 by simp
  from a c d e f show ?case by blast
qed

lemma encryptLoop_frame:
  "encryptLoop E mk rs h st = (x, h', st') \<Longrightarrow>
   arrays h' = arrays h \<and> next_ref h' = next_ref h \<and>
   (\<forall>r. r \<notin> set rs \<longrightarrow> objs h' r = objs h r)"
proof (induction rs arbitrary: h st)
  case Nil
  then show ?case by simp
next
  case (Cons r rs)
  show ?case
  proof (cases "objs h r")
    case None
    then show ?thesis using Cons.prems by simp
  next
    case (Some el)
    obtain y st1 where e: "encryptEntry E mk el st = (y, st1)" by force
    show ?thesis
    proof (cases y)
      case (Inl err)
      then show ?thesis using Cons.prems Some e by simp
    next
      case (Inr el')
      then have "encryptLoop E mk rs (h\<lparr>objs := (objs h)(r \<mapsto> el')\<rparr>) st1 = (x, h', st')"
        using Cons.prems Some e by simp
      from Cons.IH [OF this] show ?thesis by simp
    qed
  qed
qed

lemma encryptLoop_values:
  "distinct rs \<Longrightarrow> map (objs h) rs = map Some vs \<Longrightarrow>
   encryptLoop E mk rs h st = (Inr u, h', st') \<Longrightarrow>
   \<exists>ys. encryptContent E mk vs st = (Inr ys, st') \<and> map (objs h') rs = map Some ys"
proof (induction rs arbitrary: vs h st)
  case Nil
  then show ?case by simp
next
  case (Cons r rs)
  from Cons.prems(2) obtain v vs' where vs: "vs = v # vs'" and v: "objs h r = Some v"
    and rest: "map (objs h) rs = map Some vs'"
    by (cases vs) auto
  obtain y st1 where e: "encryptEntry E mk v st = (y, st1)" by force
  from Cons.prems(3) v e obtain el' where y: "y = Inr el'"
    by (cases y) auto
  let ?h1 = "h\<lparr>objs := (objs h)(r \<mapsto> el')\<rparr>"
  have loop: "encryptLoop E mk rs ?h1 st1 = (Inr u, h', st')"
    using Cons.prems(3) v e y by simp
  have r: "r \<notin> set rs" and d: "distinct rs" using Cons.prems(1) by simp_all
  have "map (objs ?h1) rs = map (objs h) rs" using r by (induction rs) auto
  then have "map (objs ?h1) rs = map Some vs'" using rest by simp
  from Cons.IH [OF d this loop] obtain ys' where
    ec: "encryptContent E mk vs' st1 = (Inr ys', st')" and m: "map (objs h') rs = map Some ys'"
    by blast
  have "objs h' r = Some el'" using encryptLoop_frame [OF loop] r by simp
  then have "map (objs h') (r # rs) = map Some (el' # ys')" using m by simp
  moreover have "encryptContent E mk vs st = (Inr (el' # ys'), st')"
    using vs e y ec by simp
  ultimately show ?case by blast
qed


text \<open>
  C9. \<^verbatim>\<open>_encryptContent\<close> does not touch the list it is given: it works on a clone, a new
  array of new records, and returns the clone. The array and the records of the scanner
  are unchanged afterwards (no \<^verbatim>\<open>dist\<close>, no \<^verbatim>\<open>tag\<close>), and the returned list holds
  the enriched records, which are the ones the value model computes.
\<close>

theorem encryptContent_enriches_a_clone:
  assumes "wf_store h" and "arrays h a = Some rs"
    and "encryptContent_store E masterKey a h st = (Inr a', h', st')"
  shows "a' \<noteq> a \<and> a' \<notin> dom (arrays h) \<and>
         arrays h' a = Some rs \<and>
         (\<forall>r \<in> set rs. objs h' r = objs h r) \<and>
         read_array h' a = read_array h a \<and>
         (\<exists>vs ys. read_array h a = Some vs \<and>
                  encryptContent E masterKey vs st = (Inr ys, st') \<and>
                  read_array h' a' = Some ys)"
proof -
  from assms(3) obtain c where jc: "json_clone h a = Some c"
    by (cases "json_clone h a") (auto simp: encryptContent_store_def)
  obtain a0 h2 where c: "c = (a0, h2)" by (cases c)
  from jc obtain vs where ra: "read_array h a = Some vs"
    by (cases "read_array h a") (auto simp: json_clone_def)
  obtain rs' h1 where no: "new_objects h vs = (rs', h1)" by force
  have a0: "a0 = next_ref h1" and h2: "h2 = h1\<lparr>arrays := (arrays h1)(next_ref h1 \<mapsto> rs'),
                                            next_ref := Suc (next_ref h1)\<rparr>"
    using jc c ra no by (auto simp: json_clone_def new_array_def)
  note P = new_objects_props [OF no]
  have rs': "rs' = [next_ref h ..< next_ref h + length vs]" using P by blast
  have n1: "next_ref h1 = next_ref h + length vs" using P by blast
  have ar1: "arrays h1 = arrays h" using P by blast
  have old1: "\<forall>r. r < next_ref h \<longrightarrow> objs h1 r = objs h r" using P by blast
  have m1: "map (objs h1) rs' = map Some vs" using P by blast
  have a_lt: "a < next_ref h" using assms(1,2) by (auto simp: wf_store_def)
  have rs_lt: "\<forall>r \<in> set rs. r < next_ref h"
    using assms(1,2) unfolding wf_store_def by (meson domI subsetD)
  have ne: "a0 \<noteq> a" using a0 n1 a_lt by simp
  have fresh: "a0 \<notin> dom (arrays h)"
    using assms(1) a0 n1 unfolding wf_store_def by (metis less_irrefl not_add_less1 trans_less_add1)
  have arr2: "arrays h2 a0 = Some rs'" using h2 a0 by simp
  from assms(3) jc c arr2 obtain u where
    loop: "encryptLoop E masterKey rs' h2 st = (Inr u, h', st')" and a': "a' = a0"
    by (auto simp: encryptContent_store_def split: sum.splits prod.splits)
  note F = encryptLoop_frame [OF loop]
  have arr': "arrays h' = arrays h2" using F by blast
  have keep: "\<forall>r. r \<notin> set rs' \<longrightarrow> objs h' r = objs h2 r" using F by blast
  have d: "distinct rs'" using rs' by simp
  have m2: "map (objs h2) rs' = map Some vs" using m1 h2 by simp
  from encryptLoop_values [OF d m2 loop] obtain ys where
    ec: "encryptContent E masterKey vs st = (Inr ys, st')" and
    m': "map (objs h') rs' = map Some ys"
    by blast
  have 1: "a' \<noteq> a" using ne a' by simp
  have 2: "a' \<notin> dom (arrays h)" using fresh a' by simp
  have 3: "arrays h' a = Some rs" using arr' h2 ar1 assms(2) ne a0 by simp
  have 4: "\<forall>r \<in> set rs. objs h' r = objs h r"
  proof
    fix r assume r: "r \<in> set rs"
    then have lt: "r < next_ref h" using rs_lt by blast
    then have "r \<notin> set rs'" using rs' by simp
    then have "objs h' r = objs h2 r" using keep by blast
    also have "\<dots> = objs h1 r" using h2 by simp
    also have "\<dots> = objs h r" using old1 lt by blast
    finally show "objs h' r = objs h r" .
  qed
  have 5: "read_array h' a = read_array h a"
    using 3 4 assms(2) by (simp add: read_array_def cong: map_cong)
  have "arrays h' a' = Some rs'" using arr' arr2 a' by simp
  then have 6: "read_array h' a' = Some ys"
    using m' by (simp add: read_array_def those_map_Some)
  from 1 2 3 4 5 6 ra ec show ?thesis by blast
qed

theorem encryptContent_in_place_counterexample:
  "fst (encryptContent_store sample_env [] 1 scanned_store (new_builder Map.empty)) = Inr 3 \<and>
   read_array scanned_store 1 =
     Some [\<lparr>path = ''a.txt'', size_bytes = 5, dist = None, tag = None,
             processed = None, display = None\<rparr>] \<and>
   read_array (fst (snd (encryptContent_store sample_env [] 1 scanned_store
                           (new_builder Map.empty)))) 1 =
     Some [\<lparr>path = ''a.txt'', size_bytes = 5, dist = None, tag = None,
             processed = None, display = None\<rparr>] \<and>
   read_array (fst (snd (encryptContent_store sample_env [] 1 scanned_store
                           (new_builder Map.empty)))) 3 =
     Some [\<lparr>path = ''a.txt'', size_bytes = 5, dist = Some ''000102030405060708090a0b'',
             tag = Some ''BQcH'', processed = None, display = Some Attach\<rparr>]"
  by code_simp

theorem encryptContent_enriches_a_clone_witness:
  "wf_store scanned_store \<and> arrays scanned_store 1 = Some [0] \<and>
   fst (encryptContent_store sample_env [] 1 scanned_store (new_builder Map.empty)) = Inr 3 \<and>
   (3 :: nat) \<noteq> 1 \<and>
   objs (fst (snd (encryptContent_store sample_env [] 1 scanned_store
                     (new_builder Map.empty)))) 0
     = objs scanned_store 0"
proof -
  have w: "wf_store scanned_store"
    by (auto simp: wf_store_def scanned_store_def split: if_splits)
  have a: "arrays scanned_store 1 = Some [0]" by (simp add: scanned_store_def)
  obtain x h' st' where r: "encryptContent_store sample_env [] 1 scanned_store
                              (new_builder Map.empty) = (x, h', st')"
    by (metis prod_cases3)
  have "fst (encryptContent_store sample_env [] 1 scanned_store (new_builder Map.empty)) = Inr 3"
    by code_simp
  then have x: "x = Inr 3" using r by simp
  from encryptContent_enriches_a_clone [OF w a r [unfolded x]]
  have "(3 :: nat) \<noteq> 1" and "\<forall>r \<in> set [0]. objs h' r = objs scanned_store r" by blast+
  then show ?thesis using w a r x by simp
qed

end
